theory Spec2Isabelle
  imports Main "HOL-Library.Sublist"
begin

section \<open>JavaScript strings\<close>

text \<open>
  A JavaScript string is a sequence of UTF-16 code units. It is modelled as a \<^typ>\<open>string\<close>
  in which every \<^typ>\<open>char\<close> stands for one code unit in the range 0 to 255 (so
  \<open>CHR 0xA0\<close> is the no-break space U+00A0); \<open>length\<close> counts code units as
  \<open>String.prototype.length\<close> does.
\<close>

abbreviation DQ :: char where "DQ \<equiv> CHR 0x22"
abbreviation SQ :: char where "SQ \<equiv> CHR 0x27"
abbreviation LF :: char where "LF \<equiv> CHR 0x0A"
abbreviation CR :: char where "CR \<equiv> CHR 0x0D"
abbreviation NBSP :: char where "NBSP \<equiv> CHR 0xA0"

text \<open>
  The characters matched by the regular-expression class \<open>\s\<close> and stripped by
  \<open>String.prototype.trim\<close> (WhiteSpace and LineTerminator of ECMAScript), as far as they lie
  in the modelled range: TAB, LF, VT, FF, CR, SPACE and NBSP.
\<close>

definition is_space :: "char \<Rightarrow> bool" where
  "is_space c \<longleftrightarrow>
     c = CHR 0x09 \<or> c = LF \<or> c = CHR 0x0B \<or> c = CHR 0x0C \<or> c = CR \<or> c = CHR '' '' \<or> c = NBSP"

definition trim :: "string \<Rightarrow> string" where
  "trim s = rev (dropWhile is_space (rev (dropWhile is_space s)))"

text \<open>\<open>text[i + 1]\<close>: the code unit after the current one, \<open>undefined\<close> at the end.\<close>

fun nextChar :: "string \<Rightarrow> char option" where
  "nextChar [] = None"
| "nextChar (n # _) = Some n"

section \<open>Parser\<close>

text \<open>
  A record is a JavaScript object whose keys are column names: a map from \<^typ>\<open>string\<close>
  to \<^typ>\<open>string\<close>; a key that is absent reads as \<open>undefined\<close> (\<open>None\<close>).
\<close>

type_synonym row = "string \<rightharpoonup> string"

record parse_result =
  headers :: "string list"
  rows :: "row list"

text \<open>
  The errors thrown by the modules: \<open>EmptyData\<close> is ``must have at least a header row and one
  data row'' of \<open>parseCSV\<close> and \<open>parseExcel\<close>, \<open>TemplateNotLoaded\<close> is ``Template not
  loaded'' of \<open>fillTemplate\<close>, \<open>TypeError\<close> is the engine's error for reading a property of
  \<open>undefined\<close>.
\<close>

datatype error = EmptyData | TemplateNotLoaded | TypeError

subsection \<open>\<open>Parser.parseCSVText\<close>\<close>

text \<open>
  The \<open>for\<close> loop over the text, one equation per position: the arguments are the loop's
  variables \<open>lines\<close>, \<open>currentLine\<close>, \<open>currentValue\<close> and \<open>insideQuotes\<close>, and the rest
  of the text from index \<open>i\<close>. The extra \<open>i++\<close> of an escaped quote and of \<open>\r\n\<close> drops one
  more code unit. The first equation is the code after the loop.
\<close>

fun parseCSVText_loop ::
  "string list list \<Rightarrow> string list \<Rightarrow> string \<Rightarrow> bool \<Rightarrow> string \<Rightarrow> string list list" where
  "parseCSVText_loop lines currentLine currentValue insideQuotes [] =
     (if currentValue \<noteq> [] \<or> length currentLine > 0
      then lines @ [currentLine @ [currentValue]]
      else lines)"
| "parseCSVText_loop lines currentLine currentValue insideQuotes (c # rest) =
     (if c = DQ then
        (if insideQuotes \<and> nextChar rest = Some DQ
         then parseCSVText_loop lines currentLine (currentValue @ [DQ]) insideQuotes (tl rest)
         else parseCSVText_loop lines currentLine currentValue (\<not> insideQuotes) rest)
      else if c = CHR '','' \<and> \<not> insideQuotes then
        parseCSVText_loop lines (currentLine @ [currentValue]) [] insideQuotes rest
      else if (c = LF \<or> (c = CR \<and> nextChar rest = Some LF)) \<and> \<not> insideQuotes then
        parseCSVText_loop (lines @ [currentLine @ [currentValue]]) [] [] insideQuotes
          (if c = CR then tl rest else rest)
      else if c \<noteq> CR then
        parseCSVText_loop lines currentLine (currentValue @ [c]) insideQuotes rest
      else parseCSVText_loop lines currentLine currentValue insideQuotes rest)"

definition parseCSVText :: "string \<Rightarrow> string list list" where
  "parseCSVText text = parseCSVText_loop [] [] [] False text"

subsection \<open>\<open>Parser.parseCSV\<close> and \<open>Parser.parseExcel\<close>\<close>

text \<open>
  \<open>line.every(cell => !cell || cell.trim() === '')\<close>: a cell is blank when it is the empty
  string or trims to it.
\<close>

definition blank_cell :: "string \<Rightarrow> bool" where
  "blank_cell cell \<longleftrightarrow> cell = [] \<or> trim cell = []"

definition blank_line :: "string list \<Rightarrow> bool" where
  "blank_line line \<longleftrightarrow> list_all blank_cell line"

text \<open>
  \<open>headers.forEach((header, index) => rowObj[header] = line[index] !== undefined ? line[index] : '')\<close>:
  the cells are assigned in header order, so a later duplicate header overwrites an earlier
  one, and an index past the end of the line reads \<open>undefined\<close> and stores the empty string.
\<close>

definition cell_at :: "string list \<Rightarrow> nat \<Rightarrow> string" where
  "cell_at line index = (if index < length line then line ! index else [])"

fun rowObj_from :: "string list \<Rightarrow> nat \<Rightarrow> string list \<Rightarrow> row \<Rightarrow> row" where
  "rowObj_from line index [] rowObj = rowObj"
| "rowObj_from line index (header # hs) rowObj =
     rowObj_from line (Suc index) hs (rowObj(header \<mapsto> cell_at line index))"

definition rowObj :: "string list \<Rightarrow> string list \<Rightarrow> row" where
  "rowObj hdrs line = rowObj_from line 0 hdrs Map.empty"

text \<open>
  The loop \<open>for (let i = 1; i < lines.length; i++)\<close>: a blank line is skipped
  (\<open>continue\<close>), any other line is pushed as a record onto \<open>rows\<close>.
\<close>

fun collect_rows :: "string list \<Rightarrow> string list list \<Rightarrow> row list \<Rightarrow> row list" where
  "collect_rows hdrs [] acc = acc"
| "collect_rows hdrs (line # ls) acc =
     (if blank_line line then collect_rows hdrs ls acc
      else collect_rows hdrs ls (acc @ [rowObj hdrs line]))"

definition parseCSV :: "string \<Rightarrow> error + parse_result" where
  "parseCSV text =
     (let lines = parseCSVText text in
      if length lines < 2 then Inl EmptyData
      else (case lines of
              [] \<Rightarrow> Inl EmptyData
            | first # data \<Rightarrow>
                (let hdrs = map trim first
                 in Inr \<lparr>headers = hdrs, rows = collect_rows hdrs data []\<rparr>)))"

text \<open>
  \<open>parseExcel\<close> hands the workbook to the SheetJS library and works on the grid
  \<open>jsonData\<close> that \<open>XLSX.utils.sheet_to_json\<close> returns for the first sheet (with
  \<open>header: 1\<close>, \<open>defval: ''\<close> and \<open>raw: false\<close> every cell is a formatted string). The
  grid is the argument of the model; \<open>String(h)\<close> of a string is the string itself.
\<close>

definition parseExcel :: "string list list \<Rightarrow> error + parse_result" where
  "parseExcel jsonData =
     (if length jsonData < 2 then Inl EmptyData
      else (case jsonData of
              [] \<Rightarrow> Inl EmptyData
            | first # data \<Rightarrow>
                (let hdrs = map trim first
                 in Inr \<lparr>headers = hdrs, rows = collect_rows hdrs data []\<rparr>)))"

section \<open>Generator\<close>

text \<open>
  The repository holds two generations of the module: the one that converts filled HTML
  (\<open>fillTemplate\<close>, placeholders stored with their brackets) and the one in
  \<open>src/js/generator.js\<close> that renders a document template (\<open>fillHtmlTemplate\<close>, tags stored
  without brackets). \<open>escapeHtml\<close> and \<open>generateFilename\<close> are the same in both.
\<close>

subsection \<open>\<open>String.prototype.split\<close>, \<open>Array.prototype.join\<close>, \<open>String.prototype.replace\<close>\<close>

text \<open>
  \<open>s.split(sep)\<close> with a string separator: the text is scanned from the left, \<open>cur\<close> is
  the piece collected since the last match; at a position where \<open>sep\<close> matches, the piece is
  closed and the scan goes on behind the match. An empty separator splits into code units.
\<close>

fun split_from :: "string \<Rightarrow> string \<Rightarrow> string \<Rightarrow> string list" where
  "split_from sep cur [] = [cur]"
| "split_from sep cur (c # cs) =
     (if sep \<noteq> [] \<and> prefix sep (c # cs)
      then cur # split_from sep [] (drop (length sep) (c # cs))
      else split_from sep (cur @ [c]) cs)"

definition js_split :: "string \<Rightarrow> string \<Rightarrow> string list" where
  "js_split sep s = (if sep = [] then map (\<lambda>c. [c]) s else split_from sep [] s)"

fun js_join :: "string \<Rightarrow> string list \<Rightarrow> string" where
  "js_join sep [] = []"
| "js_join sep [x] = x"
| "js_join sep (x # y # ys) = x @ sep @ js_join sep (y # ys)"

text \<open>
  \<open>s.replace(pat, rep)\<close> with a string pattern replaces the first occurrence only. The
  replacement texts of this program hold no \<open>$\<close>, so they are inserted as they are.
\<close>

fun replace_first :: "string \<Rightarrow> string \<Rightarrow> string \<Rightarrow> string" where
  "replace_first pat rep [] = (if pat = [] then rep else [])"
| "replace_first pat rep (c # cs) =
     (if prefix pat (c # cs) then rep @ drop (length pat) (c # cs)
      else c # replace_first pat rep cs)"

subsection \<open>Template literals: a number as decimal text\<close>

definition digit :: "nat \<Rightarrow> char" where
  "digit n = ''0123456789'' ! (n mod 10)"

function show_nat :: "nat \<Rightarrow> string" where
  "show_nat n = (if n < 10 then [digit n] else show_nat (n div 10) @ [digit n])"
  by pat_completeness auto
termination
  by (relation "measure (\<lambda>n. n)") auto

declare show_nat.simps [simp del]

subsection \<open>The mapping tables\<close>

text \<open>\<open>Object.entries\<close> lists the keys in the order in which the literal writes them.\<close>

definition placeholder_mappings :: "(string \<times> string) list" where
  "placeholder_mappings =
    [(''Client'', ''[INSERT_CLIENT_NAME]''),
     (''Desired Completion Date'', ''[INSERT_DATE]''),
     (''Room Details (Workload)'', ''[INSERT_ROOM_DETAILS]''),
     (''Functional Requirements'', ''[INSERT_FUNCTIONAL_REQUIREMENTS]''),
     (''Control System Requirements'', ''[INSERT_CONTROL_SYSTEM]''),
     (''Preferred Brands or Technology Standards'', ''[INSERT_BRANDS_STANDARDS]''),
     (''Existing Equipment Integration'', ''[INSERT_EXISTING_INTEGRATION]''),
     (''Network Strategy'', ''[INSERT_CLIENT_NETWORK_OR_DEDICATED_AV]''),
     (''Cabling & Infrastructure'', ''[INSERT_CABLING_DETAILS]''),
     (''Budgetary Estimates'', ''[INSERT_BUDGET]''),
     (''Site Constraints'', ''[INSERT_SITE_CONSTRAINTS]'')]"

definition fileMappings_columns :: "string list" where
  "fileMappings_columns = [''Site Photos'', ''Client Drawings'']"

definition fileMappings_placeholder :: string where
  "fileMappings_placeholder = ''[LIST_UPLOADED_FILES_OR_LINKS_HERE]''"

text \<open>The table of \<open>src/js/generator.js\<close>: column to tag, the tag without brackets.\<close>

definition mappings :: "(string \<times> string) list" where
  "mappings =
    [(''Client'', ''INSERT_CLIENT_NAME''),
     (''Desired Completion Date'', ''INSERT_DATE''),
     (''Room Details (Workload)'', ''INSERT_ROOM_DETAILS''),
     (''Functional Requirements'', ''INSERT_FUNCTIONAL_REQUIREMENTS''),
     (''Control System Requirements'', ''INSERT_CONTROL_SYSTEM''),
     (''Preferred Brands or Technology Standards'', ''INSERT_BRANDS_STANDARDS''),
     (''Existing Equipment Integration'', ''INSERT_EXISTING_INTEGRATION''),
     (''Network Strategy'', ''INSERT_CLIENT_NETWORK_OR_DEDICATED_AV''),
     (''Cabling & Infrastructure'', ''INSERT_CABLING_DETAILS''),
     (''Budgetary Estimates'', ''INSERT_BUDGET''),
     (''Site Constraints'', ''INSERT_SITE_CONSTRAINTS'')]"

subsection \<open>\<open>Generator.escapeHtml\<close>\<close>

text \<open>
  \<open>escapeHtml\<close> returns the empty string for a falsy argument; otherwise it stores the text
  as the \<open>textContent\<close> of a fresh \<open>div\<close> and reads \<open>innerHTML\<close> back. The browser
  serialises the one text node by the HTML fragment serialisation algorithm, which escapes
  text outside attributes as follows: \<open>&\<close> becomes \<open>&amp;\<close>, U+00A0 becomes \<open>&nbsp;\<close>,
  \<open><\<close> becomes \<open>&lt;\<close>, \<open>>\<close> becomes \<open>&gt;\<close>; every other code unit is written as it is
  (quotation marks are escaped in attribute values only).
\<close>

definition escape_char :: "char \<Rightarrow> string" where
  "escape_char c =
     (if c = CHR ''&'' then ''&amp;''
      else if c = NBSP then ''&nbsp;''
      else if c = CHR ''<'' then ''&lt;''
      else if c = CHR ''>'' then ''&gt;''
      else [c])"

definition escapeHtml :: "string \<Rightarrow> string" where
  "escapeHtml text = (if text = [] then [] else concat (map escape_char text))"

subsection \<open>\<open>Generator.fillTemplate\<close> and \<open>Generator.fillHtmlTemplate\<close>\<close>

text \<open>\<open>rowData[column] || ''\<close>: an absent key and the empty string both give the empty string.\<close>

definition value_or_empty :: "row \<Rightarrow> string \<Rightarrow> string" where
  "value_or_empty rowData column = (case rowData column of None \<Rightarrow> [] | Some v \<Rightarrow> v)"

text \<open>
  One round of the loop of \<open>fillTemplate\<close>:
  \<open>filledHtml.split(placeholder).join(escapedValue || placeholder)\<close>.
\<close>

definition fillTemplate_step :: "row \<Rightarrow> string \<Rightarrow> string \<times> string \<Rightarrow> string" where
  "fillTemplate_step rowData filledHtml entry =
     (case entry of (column, placeholder) \<Rightarrow>
        (let val = value_or_empty rowData column;
             escapedValue = escapeHtml val
         in js_join (if escapedValue = [] then placeholder else escapedValue)
              (js_split placeholder filledHtml)))"

text \<open>
  \<open>.map(col => rowData[col]).filter(val => val && val.trim()).join('\n')\<close>: the values of
  the file columns that are present, not empty and not blank.
\<close>

definition fileValues :: "row \<Rightarrow> string" where
  "fileValues rowData =
     js_join [LF]
       (filter (\<lambda>val. val \<noteq> [] \<and> trim val \<noteq> [])
          (concat (map (\<lambda>col. case rowData col of None \<Rightarrow> [] | Some v \<Rightarrow> [v])
             fileMappings_columns)))"

definition fillTemplate :: "string option \<Rightarrow> row \<Rightarrow> error + string" where
  "fillTemplate template rowData =
     (case template of
        None \<Rightarrow> Inl TemplateNotLoaded
      | Some t \<Rightarrow>
          if t = [] then Inl TemplateNotLoaded
          else
            (let filledHtml = foldl (fillTemplate_step rowData) t placeholder_mappings;
                 fileContent = (if fileValues rowData = [] then ''No files uploaded''
                                else fileValues rowData)
             in Inr (js_join (escapeHtml fileContent)
                       (js_split fileMappings_placeholder filledHtml))))"

text \<open>
  One round of the loop of \<open>fillHtmlTemplate\<close>: the placeholder is the tag in brackets, and
  the pieces are joined with the escaped value, whatever it is.
\<close>

definition fillHtmlTemplate_step :: "row \<Rightarrow> string \<Rightarrow> string \<times> string \<Rightarrow> string" where
  "fillHtmlTemplate_step row html entry =
     (case entry of (col, tag) \<Rightarrow>
        (let val = value_or_empty row col;
             placeholder = ''['' @ tag @ '']''
         in js_join (escapeHtml val) (js_split placeholder html)))"

definition fillHtmlTemplate :: "string option \<Rightarrow> row \<Rightarrow> string" where
  "fillHtmlTemplate htmlTemplate row =
     (case htmlTemplate of
        None \<Rightarrow> []
      | Some t \<Rightarrow> if t = [] then [] else foldl (fillHtmlTemplate_step row) t mappings)"

subsection \<open>\<open>Generator.generateFilename\<close>\<close>

text \<open>
  The class \<open>[^a-zA-Z0-9\s\-_]\<close> is everything but the characters kept here; the first
  \<open>replace\<close> with the \<open>g\<close> flag deletes every match.
\<close>

definition is_alnum :: "char \<Rightarrow> bool" where
  "is_alnum c \<longleftrightarrow>
     c \<in> set ''abcdefghijklmnopqrstuvwxyzABCDEFGHIJKLMNOPQRSTUVWXYZ0123456789''"

definition kept_char :: "char \<Rightarrow> bool" where
  "kept_char c \<longleftrightarrow> is_alnum c \<or> is_space c \<or> c = CHR ''-'' \<or> c = CHR ''_''"

text \<open>
  \<open>.replace(/\s+/g, '_')\<close>: at a white-space character the longest run of white space
  is matched and replaced by one underscore; the scan goes on behind the run.
\<close>

function replace_space_runs :: "string \<Rightarrow> string" where
  "replace_space_runs [] = []"
| "replace_space_runs (c # cs) =
     (if is_space c then CHR ''_'' # replace_space_runs (dropWhile is_space cs)
      else c # replace_space_runs cs)"
  by pat_completeness auto
termination
  by (relation "measure length") (auto simp: less_Suc_eq_le length_dropWhile_le)

definition clientName :: "row \<Rightarrow> nat \<Rightarrow> string" where
  "clientName rowData index =
     (case rowData ''Client'' of
        None \<Rightarrow> ''Document_'' @ show_nat (index + 1)
      | Some v \<Rightarrow> if v = [] then ''Document_'' @ show_nat (index + 1) else v)"

definition sanitized :: "string \<Rightarrow> string" where
  "sanitized name = take 50 (replace_space_runs (filter kept_char name))"

definition generateFilename :: "row \<Rightarrow> nat \<Rightarrow> string" where
  "generateFilename rowData index = sanitized (clientName rowData index) @ ''_Specification.docx''"

subsection \<open>\<open>Generator.createZip\<close>\<close>

text \<open>
  A document is a pair of its file name and its blob; the archive is the list of the entries
  handed to \<open>zip.file\<close>, in order. \<open>usedNames\<close> is the list of the names added so far.
  The \<open>while\<close> loop has no bound of its own, so it is a partial function: \<open>None\<close> is a loop
  that never ends.

  In \<open>src/js/generator.js\<close> the next candidate is
  \<open>doc.filename.replace('.docx', `_${counter}.docx`)\<close>.
\<close>

partial_function (option) createZip_while ::
  "string list \<Rightarrow> string \<Rightarrow> string \<Rightarrow> nat \<Rightarrow> string option" where
  "createZip_while usedNames doc_filename filename counter =
     (if filename \<in> set usedNames
      then createZip_while usedNames doc_filename
             (replace_first ''.docx'' (''_'' @ show_nat counter @ ''.docx'') doc_filename)
             (counter + 1)
      else Some filename)"

declare createZip_while.simps [code]

fun createZip_for :: "string list \<Rightarrow> (string \<times> 'b) list \<Rightarrow> (string \<times> 'b) list option" where
  "createZip_for usedNames [] = Some []"
| "createZip_for usedNames (doc # docs) =
     (case createZip_while usedNames (fst doc) (fst doc) 1 of
        None \<Rightarrow> None
      | Some filename \<Rightarrow>
          (case createZip_for (usedNames @ [filename]) docs of
             None \<Rightarrow> None
           | Some entries \<Rightarrow> Some ((filename, snd doc) # entries)))"

definition createZip :: "(string \<times> 'b) list \<Rightarrow> (string \<times> 'b) list option" where
  "createZip documents = createZip_for [] documents"

text \<open>
  In the older module the candidate is built from
  \<open>baseName = doc.filename.replace('.docx', '')\<close> as \<open>`${baseName}_${counter}.docx`\<close>.
\<close>

partial_function (option) createZip_baseName_while ::
  "string list \<Rightarrow> string \<Rightarrow> string \<Rightarrow> nat \<Rightarrow> string option" where
  "createZip_baseName_while usedNames doc_filename filename counter =
     (if filename \<in> set usedNames
      then createZip_baseName_while usedNames doc_filename
             (replace_first ''.docx'' [] doc_filename @ ''_'' @ show_nat counter @ ''.docx'')
             (counter + 1)
      else Some filename)"

declare createZip_baseName_while.simps [code]

fun createZip_baseName_for ::
  "string list \<Rightarrow> (string \<times> 'b) list \<Rightarrow> (string \<times> 'b) list option" where
  "createZip_baseName_for usedNames [] = Some []"
| "createZip_baseName_for usedNames (doc # docs) =
     (case createZip_baseName_while usedNames (fst doc) (fst doc) 1 of
        None \<Rightarrow> None
      | Some filename \<Rightarrow>
          (case createZip_baseName_for (usedNames @ [filename]) docs of
             None \<Rightarrow> None
           | Some entries \<Rightarrow> Some ((filename, snd doc) # entries)))"

definition createZip_baseName :: "(string \<times> 'b) list \<Rightarrow> (string \<times> 'b) list option" where
  "createZip_baseName documents = createZip_baseName_for [] documents"

section \<open>Preview\<close>

text \<open>
  The module's state: the preview frame (\<open>None\<close> while \<open>iframe\<close> is \<open>null\<close>, otherwise the
  document last written into it), the rows and the cursor. \<open>render\<close> reads
  \<open>Generator.template\<close>, which is passed as an argument.
\<close>

record preview =
  iframe :: "string option"
  pv_rows :: "row list"
  currentIndex :: int

definition Preview_initial :: preview where
  "Preview_initial = \<lparr>iframe = None, pv_rows = [], currentIndex = 0\<rparr>"

definition Preview_init :: "string \<Rightarrow> preview \<Rightarrow> preview" where
  "Preview_init doc p = p\<lparr>iframe := Some doc\<rparr>"

definition Preview_setRows :: "row list \<Rightarrow> preview \<Rightarrow> preview" where
  "Preview_setRows rs p = p\<lparr>pv_rows := rs, currentIndex := 0\<rparr>"

text \<open>
  \<open>render\<close> returns at once without a frame or without rows. Otherwise it fills the
  template with \<open>this.rows[this.currentIndex]\<close>; were the index out of range, the row would
  be \<open>undefined\<close> and \<open>fillTemplate\<close> would throw, on the template check or on the first
  property read.
\<close>

definition Preview_render :: "string option \<Rightarrow> preview \<Rightarrow> error + preview" where
  "Preview_render template p =
     (if iframe p = None \<or> length (pv_rows p) = 0 then Inr p
      else if 0 \<le> currentIndex p \<and> currentIndex p < int (length (pv_rows p)) then
        (case fillTemplate template (pv_rows p ! nat (currentIndex p)) of
           Inl e \<Rightarrow> Inl e
         | Inr filledHtml \<Rightarrow> Inr (p\<lparr>iframe := Some filledHtml\<rparr>))
      else
        (case template of
           None \<Rightarrow> Inl TemplateNotLoaded
         | Some t \<Rightarrow> if t = [] then Inl TemplateNotLoaded else Inl TypeError))"

text \<open>
  \<open>next\<close> and \<open>previous\<close> move the cursor before they render, so the move stays when
  \<open>render\<close> throws; the result is the thrown error or the returned boolean.
\<close>

definition Preview_next :: "string option \<Rightarrow> preview \<Rightarrow> (error + bool) \<times> preview" where
  "Preview_next template p =
     (if currentIndex p < int (length (pv_rows p)) - 1 then
        (let p' = p\<lparr>currentIndex := currentIndex p + 1\<rparr> in
         case Preview_render template p' of
           Inl e \<Rightarrow> (Inl e, p')
         | Inr p'' \<Rightarrow> (Inr True, p''))
      else (Inr False, p))"

definition Preview_previous :: "string option \<Rightarrow> preview \<Rightarrow> (error + bool) \<times> preview" where
  "Preview_previous template p =
     (if currentIndex p > 0 then
        (let p' = p\<lparr>currentIndex := currentIndex p - 1\<rparr> in
         case Preview_render template p' of
           Inl e \<Rightarrow> (Inl e, p')
         | Inr p'' \<Rightarrow> (Inr True, p''))
      else (Inr False, p))"

definition Preview_goTo :: "string option \<Rightarrow> int \<Rightarrow> preview \<Rightarrow> (error + unit) \<times> preview" where
  "Preview_goTo template index p =
     (if index \<ge> 0 \<and> index < int (length (pv_rows p)) then
        (let p' = p\<lparr>currentIndex := index\<rparr> in
         case Preview_render template p' of
           Inl e \<Rightarrow> (Inl e, p')
         | Inr p'' \<Rightarrow> (Inr (), p''))
      else (Inr (), p))"

definition Preview_clear :: "preview \<Rightarrow> preview" where
  "Preview_clear p =
     (let p' = p\<lparr>pv_rows := [], currentIndex := 0\<rparr> in
      if iframe p' \<noteq> None then p'\<lparr>iframe := Some ''<html><body></body></html>''\<rparr> else p')"

text \<open>Any sequence of calls on the module, run from a given state.\<close>

datatype preview_call =
  Init string | SetRows "row list" | Render | Next | Previous | GoTo int | Clear

fun Preview_call :: "string option \<Rightarrow> preview_call \<Rightarrow> preview \<Rightarrow> preview" where
  "Preview_call template (Init doc) p = Preview_init doc p"
| "Preview_call template (SetRows rs) p = Preview_setRows rs p"
| "Preview_call template Render p =
     (case Preview_render template p of Inl e \<Rightarrow> p | Inr p' \<Rightarrow> p')"
| "Preview_call template Next p = snd (Preview_next template p)"
| "Preview_call template Previous p = snd (Preview_previous template p)"
| "Preview_call template (GoTo index) p = snd (Preview_goTo template index p)"
| "Preview_call template Clear p = Preview_clear p"

definition Preview_run :: "string option \<Rightarrow> preview_call list \<Rightarrow> preview \<Rightarrow> preview" where
  "Preview_run template calls p = foldl (\<lambda>q call. Preview_call template call q) p calls"

text \<open>The invariant of the cursor.\<close>

definition cursor_ok :: "preview \<Rightarrow> bool" where
  "cursor_ok p \<longleftrightarrow>
     (pv_rows p \<noteq> [] \<longrightarrow> 0 \<le> currentIndex p \<and> currentIndex p < int (length (pv_rows p)))"

section \<open>Notions used to state the properties\<close>

text \<open>No cell of a list of lines holds a carriage return.\<close>

definition no_CR :: "string list list \<Rightarrow> bool" where
  "no_CR lines \<longleftrightarrow> (\<forall>line\<in>set lines. \<forall>cell\<in>set line. CR \<notin> set cell)"








text \<open>
  The archive names that the de-duplication rule asks for. \<open>numbered name n\<close> is the name
  with \<open>_n\<close> put before its last five characters, the suffix \<open>.docx\<close>. The document whose
  name has occurred \<open>k\<close> times before keeps its name when \<open>k = 0\<close> and gets the number
  \<open>k\<close> otherwise; \<open>dedup_names\<close> runs through the names with the list \<open>seen\<close> of the
  names before.
\<close>

definition numbered :: "string \<Rightarrow> nat \<Rightarrow> string" where
  "numbered name n = take (length name - 5) name @ ''_'' @ show_nat n @ ''.docx''"

definition entry_name :: "string \<Rightarrow> nat \<Rightarrow> string" where
  "entry_name name k = (if k = 0 then name else numbered name k)"

fun dedup_names :: "string list \<Rightarrow> string list \<Rightarrow> string list" where
  "dedup_names seen [] = []"
| "dedup_names seen (n # ns) = entry_name n (count_list seen n) # dedup_names (seen @ [n]) ns"

text \<open>The shape of the names that \<open>generateFilename\<close> makes.\<close>

definition spec_name :: "string \<Rightarrow> string \<Rightarrow> bool" where
  "spec_name stem name \<longleftrightarrow>
     name = stem @ ''_Specification.docx'' \<and>
     (\<forall>c\<in>set stem. is_alnum c \<or> c = CHR ''-'' \<or> c = CHR ''_'')"

text \<open>
  Documents as the generator makes them: the file name of each comes from
  \<open>generateFilename\<close>, whatever record, index and blob it was made from.
\<close>

definition named_documents :: "(row \<times> nat \<times> 'b) list \<Rightarrow> (string \<times> 'b) list" where
  "named_documents inputs =
     map (\<lambda>(rowData, index, blob). (generateFilename rowData index, blob)) inputs"

text \<open>
  What a browser shows for markup text that holds the four entities written by
  \<open>escapeHtml\<close>: each entity is read as its character.
\<close>

fun html_text :: "string \<Rightarrow> string" where
  "html_text [] = []"
| "html_text (c # cs) =
     (if prefix ''&amp;'' (c # cs) then CHR ''&'' # html_text (drop 4 cs)
      else if prefix ''&nbsp;'' (c # cs) then NBSP # html_text (drop 5 cs)
      else if prefix ''&lt;'' (c # cs) then CHR ''<'' # html_text (drop 3 cs)
      else if prefix ''&gt;'' (c # cs) then CHR ''>'' # html_text (drop 3 cs)
      else c # html_text cs)"

text \<open>
  A template seen as a list of parts: a part is text, or the placeholder of a column of the
  mapping table of \<open>src/js/generator.js\<close>, written as the tag in brackets. The parts are
  well formed when no text holds an opening bracket and every field is a column of the
  table. \<open>partly_filled done\<close> is the template in which the fields of the columns in
  \<open>done\<close> are already replaced by their escaped values.
\<close>

datatype template_part = Text string | Field string

definition placeholder_of :: "string \<Rightarrow> string" where
  "placeholder_of col =
     (case map_of mappings col of None \<Rightarrow> [] | Some tag \<Rightarrow> ''['' @ tag @ '']'')"

fun part_text :: "template_part \<Rightarrow> string" where
  "part_text (Text t) = t"
| "part_text (Field col) = placeholder_of col"

definition template_of :: "template_part list \<Rightarrow> string" where
  "template_of parts = concat (map part_text parts)"

fun well_formed_part :: "template_part \<Rightarrow> bool" where
  "well_formed_part (Text t) \<longleftrightarrow> CHR ''['' \<notin> set t"
| "well_formed_part (Field col) \<longleftrightarrow> col \<in> set (map fst mappings)"

fun filled_part :: "row \<Rightarrow> template_part \<Rightarrow> string" where
  "filled_part row (Text t) = t"
| "filled_part row (Field col) = escapeHtml (value_or_empty row col)"

fun partly_filled_part :: "string set \<Rightarrow> row \<Rightarrow> template_part \<Rightarrow> string" where
  "partly_filled_part done row (Text t) = t"
| "partly_filled_part done row (Field col) =
     (if col \<in> done then escapeHtml (value_or_empty row col) else placeholder_of col)"

definition partly_filled :: "string set \<Rightarrow> row \<Rightarrow> template_part list \<Rightarrow> string" where
  "partly_filled done row parts = concat (map (partly_filled_part done row) parts)"

section \<open>Properties of the parser\<close>

subsection \<open>The rows collected by \<open>parseCSV\<close> and \<open>parseExcel\<close>\<close>

lemma collect_rows_eq:
  "collect_rows hdrs ls acc = acc @ map (rowObj hdrs) (filter (\<lambda>l. \<not> blank_line l) ls)"
  by (induction ls arbitrary: acc) simp_all

lemma parseCSV_error_iff: "parseCSV t = Inl EmptyData \<longleftrightarrow> length (parseCSVText t) < 2"
  by (simp add: parseCSV_def Let_def split: list.splits)

lemma parseExcel_error_iff: "parseExcel g = Inl EmptyData \<longleftrightarrow> length g < 2"
  by (simp add: parseExcel_def Let_def split: list.splits)

lemma parseCSV_success:
  assumes "parseCSVText t = first # data" "data \<noteq> []"
  shows "parseCSV t = Inr \<lparr>headers = map trim first,
           rows = map (rowObj (map trim first)) (filter (\<lambda>l. \<not> blank_line l) data)\<rparr>"
  using assms by (cases data) (simp_all add: parseCSV_def Let_def collect_rows_eq)

lemma parseExcel_success:
  assumes "g = first # data" "data \<noteq> []"
  shows "parseExcel g = Inr \<lparr>headers = map trim first,
           rows = map (rowObj (map trim first)) (filter (\<lambda>l. \<not> blank_line l) data)\<rparr>"
  using assms by (cases data) (simp_all add: parseExcel_def Let_def collect_rows_eq)

subsection \<open>Carriage returns in the scanner\<close>

lemma no_CR_simps:
  "no_CR []" "no_CR (ls @ [l]) \<longleftrightarrow> no_CR ls \<and> no_CR [l]"
  "no_CR [l @ [v]] \<longleftrightarrow> no_CR [l] \<and> CR \<notin> set v"
  "no_CR [[]]"
  by (auto simp: no_CR_def)

lemma loop_no_CR:
  assumes "no_CR lines" and "no_CR [currentLine]" and "CR \<notin> set currentValue"
  shows "no_CR (parseCSVText_loop lines currentLine currentValue insideQuotes t)"
  using assms
proof (induction lines currentLine currentValue insideQuotes t rule: parseCSVText_loop.induct)
  case (1 lines currentLine currentValue insideQuotes)
  then show ?case by (simp add: no_CR_simps)
next
  case (2 lines currentLine currentValue insideQuotes c rest)
  note IH = "2.IH" and P = "2.prems"
  let ?nl = "(c = LF \<or> (c = CR \<and> nextChar rest = Some LF)) \<and> \<not> insideQuotes"
  consider (esc) "c = DQ" "insideQuotes \<and> nextChar rest = Some DQ"
    | (tog) "c = DQ" "\<not> (insideQuotes \<and> nextChar rest = Some DQ)"
    | (comma) "c \<noteq> DQ" "c = CHR '','' \<and> \<not> insideQuotes"
    | (nl) "c \<noteq> DQ" "\<not> (c = CHR '','' \<and> \<not> insideQuotes)" "?nl"
    | (ch) "c \<noteq> DQ" "\<not> (c = CHR '','' \<and> \<not> insideQuotes)" "\<not> ?nl" "c \<noteq> CR"
    | (cr) "c \<noteq> DQ" "\<not> (c = CHR '','' \<and> \<not> insideQuotes)" "\<not> ?nl" "\<not> c \<noteq> CR"
    by blast
  then show ?case
  proof cases
    case esc
    have "no_CR (parseCSVText_loop lines currentLine (currentValue @ [DQ]) insideQuotes (tl rest))"
      by (rule IH(1)[OF esc]) (use P in \<open>simp_all add: no_CR_simps\<close>)
    then show ?thesis using esc by simp
  next
    case tog
    have "no_CR (parseCSVText_loop lines currentLine currentValue (\<not> insideQuotes) rest)"
      by (rule IH(2)[OF tog]) (use P in \<open>simp_all add: no_CR_simps\<close>)
    then show ?thesis using tog by auto
  next
    case comma
    have "no_CR (parseCSVText_loop lines (currentLine @ [currentValue]) [] insideQuotes rest)"
      by (rule IH(3)[OF comma]) (use P in \<open>simp_all add: no_CR_simps\<close>)
    then show ?thesis using comma by auto
  next
    case nl
    have "no_CR (parseCSVText_loop (lines @ [currentLine @ [currentValue]]) [] [] insideQuotes
            (if c = CR then tl rest else rest))"
      by (rule IH(4)[OF nl]) (use P in \<open>simp_all add: no_CR_simps\<close>)
    then show ?thesis using nl by auto
  next
    case ch
    have "no_CR (parseCSVText_loop lines currentLine (currentValue @ [c]) insideQuotes rest)"
      by (rule IH(5)[OF ch]) (use P ch in \<open>simp_all add: no_CR_simps\<close>)
    then show ?thesis using ch by auto
  next
    case cr
    have "no_CR (parseCSVText_loop lines currentLine currentValue insideQuotes rest)"
      by (rule IH(6)[OF cr]) (use P in \<open>simp_all add: no_CR_simps\<close>)
    then show ?thesis using cr by auto
  qed
qed

lemma loop_drop_CR_last:
  assumes "nextChar b \<noteq> Some LF" and "\<not> (c = DQ \<and> nextChar b = Some DQ)"
  shows "parseCSVText_loop ls l v q (c # CR # b) = parseCSVText_loop ls l v q (c # b)"
proof -
  have cr: "\<And>ls l v q. parseCSVText_loop ls l v q (CR # b) = parseCSVText_loop ls l v q b"
    using assms(1) by simp
  show ?thesis
  proof (cases "c = DQ")
    case True
    then have "nextChar b \<noteq> Some DQ" using assms(2) by simp
    then show ?thesis using True
      by (simp del: parseCSVText_loop.simps(2) add: parseCSVText_loop.simps(2)[of _ _ _ _ DQ] cr)
  next
    case False
    then show ?thesis
      by (simp del: parseCSVText_loop.simps(2)
            add: parseCSVText_loop.simps(2)[of _ _ _ _ c] cr assms(1))
  qed
qed

lemma loop_drop_CR:
  assumes "nextChar b \<noteq> Some LF"
    and "\<not> (a \<noteq> [] \<and> last a = DQ \<and> nextChar b = Some DQ)"
  shows "parseCSVText_loop ls l v q (a @ CR # b) = parseCSVText_loop ls l v q (a @ b)"
  using assms
proof (induction ls l v q a rule: parseCSVText_loop.induct)
  case (1 lines currentLine currentValue insideQuotes)
  then show ?case by simp
next
  case (2 lines currentLine currentValue insideQuotes c rest)
  note IH = "2.IH" and P = "2.prems"
  show ?case
  proof (cases rest)
    case Nil
    with P show ?thesis using loop_drop_CR_last[of b c] by simp
  next
    case (Cons n rest')
    have t: "tl (rest @ CR # b) = tl rest @ CR # b" "tl (rest @ b) = tl rest @ b"
      using Cons by simp_all
    have nx: "nextChar (rest @ CR # b) = nextChar rest" "nextChar (rest @ b) = nextChar rest"
      using Cons by simp_all
    have pr: "\<not> (rest \<noteq> [] \<and> last rest = DQ \<and> nextChar b = Some DQ)"
      using P Cons by simp
    have pr': "\<not> (tl rest \<noteq> [] \<and> last (tl rest) = DQ \<and> nextChar b = Some DQ)"
      using P Cons by (cases rest') simp_all
    let ?nl = "(c = LF \<or> (c = CR \<and> nextChar rest = Some LF)) \<and> \<not> insideQuotes"
    consider (esc) "c = DQ" "insideQuotes \<and> nextChar rest = Some DQ"
      | (tog) "c = DQ" "\<not> (insideQuotes \<and> nextChar rest = Some DQ)"
      | (comma) "c \<noteq> DQ" "c = CHR '','' \<and> \<not> insideQuotes"
      | (nl) "c \<noteq> DQ" "\<not> (c = CHR '','' \<and> \<not> insideQuotes)" "?nl"
      | (ch) "c \<noteq> DQ" "\<not> (c = CHR '','' \<and> \<not> insideQuotes)" "\<not> ?nl" "c \<noteq> CR"
      | (cr) "c \<noteq> DQ" "\<not> (c = CHR '','' \<and> \<not> insideQuotes)" "\<not> ?nl" "\<not> c \<noteq> CR"
      by blast
    then show ?thesis
    proof cases
      case esc
      from IH(1)[OF esc P(1) pr'] show ?thesis
        using esc by (simp add: t nx)
    next
      case tog
      from IH(2)[OF tog P(1) pr] show ?thesis
        using tog by (auto simp add: t nx)
    next
      case comma
      from IH(3)[OF comma P(1) pr] show ?thesis
        using comma by (auto simp add: t nx)
    next
      case nl
      have "\<not> ((if c = CR then tl rest else rest) \<noteq> [] \<and>
                last (if c = CR then tl rest else rest) = DQ \<and> nextChar b = Some DQ)"
        using pr pr' by simp
      from IH(4)[OF nl P(1) this] show ?thesis
        using nl by (auto simp add: t nx)
    next
      case ch
      from IH(5)[OF ch P(1) pr] show ?thesis
        using ch by (auto simp add: t nx)
    next
      case cr
      from IH(6)[OF cr P(1) pr] show ?thesis
        using cr by (auto simp add: t nx)
    qed
  qed
qed

subsection \<open>The scanner reads back what the writer wrote\<close>










section \<open>Claims about the parser\<close>

text \<open>
  Claim C3, as the code has it. \<open>parseCSV\<close> throws the empty-data error exactly when the
  scanner returns fewer than two lines, blank lines counted, and \<open>parseExcel\<close> exactly when
  the grid has fewer than two rows. The test comes before the blank rows are skipped: an
  input whose header row is followed by blank rows only is not rejected, it gives the
  headers and an empty sequence of rows (the caller, \<open>processFile\<close>, has its own test for
  that).
\<close>

theorem parse_EmptyData_iff:
  "(parseCSV t = Inl EmptyData \<longleftrightarrow> length (parseCSVText t) < 2) \<and>
   (parseExcel g = Inl EmptyData \<longleftrightarrow> length g < 2) \<and>
   (parseCSVText t = first # data \<and> data \<noteq> [] \<and> list_all blank_line data \<longrightarrow>
      parseCSV t = Inr \<lparr>headers = map trim first, rows = []\<rparr>) \<and>
   (g = first # data \<and> data \<noteq> [] \<and> list_all blank_line data \<longrightarrow>
      parseExcel g = Inr \<lparr>headers = map trim first, rows = []\<rparr>)"
proof -
  have f: "list_all blank_line data \<Longrightarrow> filter (\<lambda>l. \<not> blank_line l) data = []"
    by (simp add: list_all_iff)
  show ?thesis
    using parseCSV_success[of t first data] parseExcel_success[of g first data]
    by (auto simp: parseCSV_error_iff parseExcel_error_iff f)
qed

theorem parse_EmptyData_iff_witness:
  "parseCSV ''a'' = Inl EmptyData \<and> length (parseCSVText ''a'') < 2 \<and>
   parseExcel [[''a'']] = Inl EmptyData \<and>
   parseCSVText ''a,b\<newline> ,\<newline>'' = [''a'', ''b''] # [['' '', '''']] \<and>
   list_all blank_line [['' '', '''']] \<and>
   parseCSV ''a,b\<newline> ,\<newline>'' = Inr \<lparr>headers = [''a'', ''b''], rows = []\<rparr> \<and>
   parseExcel [[''a'', ''b''], ['' '', '''']] = Inr \<lparr>headers = [''a'', ''b''], rows = []\<rparr>"
proof -
  have 1: "parseCSVText ''a,b\<newline> ,\<newline>'' = [''a'', ''b''] # [['' '', '''']]"
    by (simp add: parseCSVText_def)
  have 2: "list_all blank_line [['' '', '''']]"
    by (simp add: blank_line_def blank_cell_def trim_def is_space_def)
  have 3: "length (parseCSVText ''a'') < 2" by (simp add: parseCSVText_def)
  have 4: "map trim [''a'', ''b''] = [''a'', ''b'']" by (simp add: trim_def is_space_def)
  show ?thesis
    using parse_EmptyData_iff[of "''a''" "[[''a'']]" "[]" "[]"]
      parse_EmptyData_iff[of "''a,b\<newline> ,\<newline>''" "[[''a'', ''b''], ['' '', '''']]" "[''a'', ''b'']" "[['' '', '''']]"]
      1 2 3 4
    by simp
qed

text \<open>
  Claim C3 as it is stated fails: the text \<open>a,b\n\n\<close> has one line that is not blank, and
  \<open>parseCSV\<close> returns a result with no rows instead of the error.
\<close>

theorem parseCSV_EmptyData_counterexample:
  "length (filter (\<lambda>l. \<not> blank_line l) (parseCSVText ''a,b\<newline>\<newline>'')) < 2 \<and>
   parseCSV ''a,b\<newline>\<newline>'' = Inr \<lparr>headers = [''a'', ''b''], rows = []\<rparr>"
  by (simp add: parseCSV_def parseCSVText_def blank_line_def blank_cell_def trim_def is_space_def)



text \<open>
  Claim C9. No cell returned by \<open>parseCSVText\<close> holds a carriage return. A carriage return
  that is not followed by a line feed leaves every variable of the scanner as it was, inside
  quotes and outside, so it ends no line; the text with it parses like the text without it
  (unless taking it out would bring two double quotes together). A line feed inside quotes
  is appended to the value.
\<close>

theorem parseCSVText_lone_CR_deleted:
  "no_CR (parseCSVText t) \<and>
   (nextChar rest \<noteq> Some LF \<longrightarrow>
      parseCSVText_loop ls l v q (CR # rest) = parseCSVText_loop ls l v q rest) \<and>
   (nextChar b \<noteq> Some LF \<and> \<not> (a \<noteq> [] \<and> last a = DQ \<and> nextChar b = Some DQ) \<longrightarrow>
      parseCSVText (a @ CR # b) = parseCSVText (a @ b)) \<and>
   parseCSVText_loop ls l v True (LF # rest) = parseCSVText_loop ls l (v @ [LF]) True rest"
  using loop_no_CR[of "[]" "[]" "[]" False t] loop_drop_CR[of b a "[]" "[]" "[]" False]
  by (simp add: parseCSVText_def no_CR_simps)

theorem parseCSVText_lone_CR_deleted_witness:
  "nextChar (''b'' @ [DQ]) \<noteq> Some LF \<and>
   \<not> (DQ # ''a'' \<noteq> [] \<and> last (DQ # ''a'') = DQ \<and> nextChar (''b'' @ [DQ]) = Some DQ) \<and>
   parseCSVText ((DQ # ''a'') @ CR # ''b'' @ [DQ]) = [[''ab'']] \<and>
   parseCSVText_loop [] [] ''x'' True (LF # ''y'') = [[''x\<newline>y'']] \<and>
   parseCSVText_loop [] [] ''x'' True (CR # ''y'') = [[''xy'']] \<and>
   no_CR (parseCSVText ((DQ # ''a'') @ CR # ''b'' @ [DQ]))"
proof -
  have 1: "parseCSVText ((DQ # ''a'') @ ''b'' @ [DQ]) = [[''ab'']]"
    by (simp add: parseCSVText_def)
  have 2: "parseCSVText_loop [] [] ''x'' True ''y'' = [[''xy'']]"
    "parseCSVText_loop [] [] (''x'' @ [LF]) True ''y'' = [[''x\<newline>y'']]" by simp_all
  have 3: "nextChar (''b'' @ [DQ]) \<noteq> Some LF" "nextChar ''y'' \<noteq> Some LF" by simp_all
  show ?thesis
    using parseCSVText_lone_CR_deleted[where t = "(DQ # ''a'') @ CR # ''b'' @ [DQ]" and rest = "''y''"
        and ls = "[]" and l = "[]" and v = "''x''" and q = True and b = "''b'' @ [DQ]"
        and a = "DQ # ''a''"] 1 2 3
    by auto
qed



section \<open>Properties of the preview navigator\<close>

lemma fillTemplate_loaded:
  "tpl \<noteq> [] \<Longrightarrow> \<exists>html. fillTemplate (Some tpl) r = Inr html"
  by (simp add: fillTemplate_def Let_def)

lemma Preview_render_keeps:
  "Preview_render template p = Inr p' \<Longrightarrow>
     pv_rows p' = pv_rows p \<and> currentIndex p' = currentIndex p"
  by (auto simp: Preview_render_def split: if_splits sum.splits option.splits)

lemma Preview_render_loaded:
  assumes "tpl \<noteq> []" and "pv_rows p \<noteq> [] \<longrightarrow> 0 \<le> currentIndex p \<and> currentIndex p < int (length (pv_rows p))"
  shows "\<exists>p'. Preview_render (Some tpl) p = Inr p'"
proof -
  obtain html where "fillTemplate (Some tpl) (pv_rows p ! nat (currentIndex p)) = Inr html"
    using fillTemplate_loaded[OF assms(1)] by blast
  then show ?thesis using assms(2) by (auto simp: Preview_render_def)
qed

lemma Preview_next_state:
  "pv_rows (snd (Preview_next template p)) = pv_rows p \<and>
   currentIndex (snd (Preview_next template p)) =
     (if currentIndex p < int (length (pv_rows p)) - 1 then currentIndex p + 1 else currentIndex p)"
  by (auto simp: Preview_next_def Let_def split: sum.splits dest: Preview_render_keeps)

lemma Preview_previous_state:
  "pv_rows (snd (Preview_previous template p)) = pv_rows p \<and>
   currentIndex (snd (Preview_previous template p)) =
     (if currentIndex p > 0 then currentIndex p - 1 else currentIndex p)"
  by (auto simp: Preview_previous_def Let_def split: sum.splits dest: Preview_render_keeps)

lemma Preview_goTo_state:
  "pv_rows (snd (Preview_goTo template i p)) = pv_rows p \<and>
   currentIndex (snd (Preview_goTo template i p)) =
     (if i \<ge> 0 \<and> i < int (length (pv_rows p)) then i else currentIndex p)"
  by (auto simp: Preview_goTo_def Let_def split: sum.splits dest: Preview_render_keeps)

lemma cursor_ok_call: "cursor_ok p \<Longrightarrow> cursor_ok (Preview_call template call p)"
proof (cases call)
  case (Init doc)
  assume "cursor_ok p" then show ?thesis using Init by (simp add: cursor_ok_def Preview_init_def)
next
  case (SetRows rs)
  then show ?thesis by (simp add: cursor_ok_def Preview_setRows_def)
next
  case Render
  assume "cursor_ok p" then show ?thesis using Render
    by (auto simp: cursor_ok_def split: sum.splits dest: Preview_render_keeps)
next
  case Next
  assume "cursor_ok p" then show ?thesis using Next Preview_next_state[of template p]
    by (auto simp: cursor_ok_def)
next
  case Previous
  assume "cursor_ok p" then show ?thesis using Previous Preview_previous_state[of template p]
    by (auto simp: cursor_ok_def)
next
  case (GoTo i)
  assume "cursor_ok p" then show ?thesis using GoTo Preview_goTo_state[of template i p]
    by (auto simp: cursor_ok_def)
next
  case Clear
  then show ?thesis by (simp add: cursor_ok_def Preview_clear_def Let_def)
qed

lemma cursor_ok_run: "cursor_ok p \<Longrightarrow> cursor_ok (Preview_run template calls p)"
  unfolding Preview_run_def
  by (induction calls arbitrary: p) (simp_all add: cursor_ok_call)

lemma cursor_ok_initial: "cursor_ok Preview_initial"
  by (simp add: cursor_ok_def Preview_initial_def)

lemma Preview_next_result:
  "fst (Preview_next template p) = Inr True \<Longrightarrow> currentIndex p < int (length (pv_rows p)) - 1"
  "\<not> currentIndex p < int (length (pv_rows p)) - 1 \<Longrightarrow> Preview_next template p = (Inr False, p)"
  by (auto simp: Preview_next_def Let_def split: if_splits sum.splits)

lemma Preview_next_moves:
  assumes "tpl \<noteq> []" "cursor_ok p" "currentIndex p < int (length (pv_rows p)) - 1"
  shows "fst (Preview_next (Some tpl) p) = Inr True"
proof -
  let ?p' = "p\<lparr>currentIndex := currentIndex p + 1\<rparr>"
  have "pv_rows ?p' \<noteq> [] \<longrightarrow> 0 \<le> currentIndex ?p' \<and> currentIndex ?p' < int (length (pv_rows ?p'))"
    using assms(2,3) by (auto simp: cursor_ok_def)
  from Preview_render_loaded[OF assms(1) this] show ?thesis
    using assms(3) by (auto simp: Preview_next_def Let_def)
qed

lemma Preview_previous_result:
  "fst (Preview_previous template p) = Inr True \<Longrightarrow> currentIndex p > 0"
  "\<not> currentIndex p > 0 \<Longrightarrow> Preview_previous template p = (Inr False, p)"
  by (auto simp: Preview_previous_def Let_def split: if_splits sum.splits)

lemma Preview_previous_moves:
  assumes "tpl \<noteq> []" "cursor_ok p" "currentIndex p > 0"
  shows "fst (Preview_previous (Some tpl) p) = Inr True"
proof -
  let ?p' = "p\<lparr>currentIndex := currentIndex p - 1\<rparr>"
  have "pv_rows ?p' \<noteq> [] \<longrightarrow> 0 \<le> currentIndex ?p' \<and> currentIndex ?p' < int (length (pv_rows ?p'))"
    using assms(2,3) by (auto simp: cursor_ok_def)
  from Preview_render_loaded[OF assms(1) this] show ?thesis
    using assms(3) by (auto simp: Preview_previous_def Let_def)
qed

text \<open>
  Claim C7. Whatever calls are made on the module from its initial state, the cursor is
  within the rows whenever there are rows. \<open>setRows\<close> puts the cursor at 0. \<open>next\<close> adds one
  to the cursor when it is below the last index, and then returns true (when the template is
  loaded, so that \<open>render\<close> does not throw); otherwise it changes nothing and returns false.
  \<open>previous\<close> does the same downwards from an index above 0. With three rows:
  \<open>previous\<close> returns false at 0; the calls of \<open>next\<close> take the cursor from 0 to 1 and to 2,
  where the third and the fourth call return false and leave it at 2.
\<close>

theorem Preview_cursor:
  "cursor_ok (Preview_run template calls Preview_initial) \<and>
   currentIndex (Preview_setRows rs p) = 0 \<and> pv_rows (Preview_setRows rs p) = rs \<and>
   (currentIndex p < int (length (pv_rows p)) - 1 \<longrightarrow>
      currentIndex (snd (Preview_next template p)) = currentIndex p + 1 \<and>
      (cursor_ok p \<and> template = Some tpl \<and> tpl \<noteq> [] \<longrightarrow> fst (Preview_next template p) = Inr True)) \<and>
   (\<not> currentIndex p < int (length (pv_rows p)) - 1 \<longrightarrow>
      Preview_next template p = (Inr False, p)) \<and>
   (currentIndex p > 0 \<longrightarrow>
      currentIndex (snd (Preview_previous template p)) = currentIndex p - 1 \<and>
      (cursor_ok p \<and> template = Some tpl \<and> tpl \<noteq> [] \<longrightarrow>
         fst (Preview_previous template p) = Inr True)) \<and>
   (\<not> currentIndex p > 0 \<longrightarrow> Preview_previous template p = (Inr False, p)) \<and>
   (tpl \<noteq> [] \<longrightarrow>
      (let p0 = Preview_setRows [r0, r1, r2] p;
           p1 = snd (Preview_next (Some tpl) p0);
           p2 = snd (Preview_next (Some tpl) p1);
           p3 = snd (Preview_next (Some tpl) p2)
       in Preview_previous (Some tpl) p0 = (Inr False, p0) \<and> currentIndex p0 = 0 \<and>
          fst (Preview_next (Some tpl) p0) = Inr True \<and> currentIndex p1 = 1 \<and>
          fst (Preview_next (Some tpl) p1) = Inr True \<and> currentIndex p2 = 2 \<and>
          fst (Preview_next (Some tpl) p2) = Inr False \<and> currentIndex p3 = 2 \<and>
          Preview_next (Some tpl) p3 = (Inr False, p3)))"
proof -
  have inv: "cursor_ok (Preview_run template calls Preview_initial)"
    by (rule cursor_ok_run[OF cursor_ok_initial])
  have scen: "(let p0 = Preview_setRows [r0, r1, r2] p;
           p1 = snd (Preview_next (Some tpl) p0);
           p2 = snd (Preview_next (Some tpl) p1);
           p3 = snd (Preview_next (Some tpl) p2)
       in Preview_previous (Some tpl) p0 = (Inr False, p0) \<and> currentIndex p0 = 0 \<and>
          fst (Preview_next (Some tpl) p0) = Inr True \<and> currentIndex p1 = 1 \<and>
          fst (Preview_next (Some tpl) p1) = Inr True \<and> currentIndex p2 = 2 \<and>
          fst (Preview_next (Some tpl) p2) = Inr False \<and> currentIndex p3 = 2 \<and>
          Preview_next (Some tpl) p3 = (Inr False, p3))" if t: "tpl \<noteq> []"
  proof -
    define p0 where "p0 = Preview_setRows [r0, r1, r2] p"
    define p1 where "p1 = snd (Preview_next (Some tpl) p0)"
    define p2 where "p2 = snd (Preview_next (Some tpl) p1)"
    define p3 where "p3 = snd (Preview_next (Some tpl) p2)"
    have 0: "currentIndex p0 = 0" "pv_rows p0 = [r0, r1, r2]"
      by (simp_all add: p0_def Preview_setRows_def)
    have 1: "currentIndex p1 = 1" "pv_rows p1 = [r0, r1, r2]"
      using Preview_next_state[of "Some tpl" p0] 0 by (simp_all add: p1_def)
    have 2: "currentIndex p2 = 2" "pv_rows p2 = [r0, r1, r2]"
      using Preview_next_state[of "Some tpl" p1] 1 by (simp_all add: p2_def)
    have 3: "currentIndex p3 = 2" "pv_rows p3 = [r0, r1, r2]"
      using Preview_next_state[of "Some tpl" p2] 2 by (simp_all add: p3_def)
    have a: "Preview_previous (Some tpl) p0 = (Inr False, p0)"
      using Preview_previous_result(2)[of p0] 0 by simp
    have b: "fst (Preview_next (Some tpl) p0) = Inr True"
      using Preview_next_moves[OF t, of p0] 0 by (simp add: cursor_ok_def)
    have c: "fst (Preview_next (Some tpl) p1) = Inr True"
      using Preview_next_moves[OF t, of p1] 1 by (simp add: cursor_ok_def)
    have d: "Preview_next (Some tpl) p2 = (Inr False, p2)"
      using Preview_next_result(2)[of p2] 2 by simp
    have e: "Preview_next (Some tpl) p3 = (Inr False, p3)"
      using Preview_next_result(2)[of p3] 3 by simp
    show ?thesis
      unfolding Let_def p0_def[symmetric] p1_def[symmetric] p2_def[symmetric] p3_def[symmetric]
      using 0 1 2 3 a b c d e by simp
  qed
  show ?thesis
    using inv scen Preview_next_state[of template p] Preview_previous_state[of template p]
      Preview_next_result(2)[of p template] Preview_previous_result(2)[of p template]
      Preview_next_moves[of tpl p] Preview_previous_moves[of tpl p]
    by (simp add: Preview_setRows_def)
qed

theorem Preview_cursor_witness:
  "(let p = Preview_setRows [Map.empty, Map.empty, Map.empty] Preview_initial in
      currentIndex p < int (length (pv_rows p)) - 1 \<and> \<not> currentIndex p > 0 \<and> cursor_ok p \<and>
      ''t'' \<noteq> [] \<and>
      fst (Preview_next (Some ''t'') p) = Inr True \<and>
      currentIndex (snd (Preview_next (Some ''t'') p)) = 1 \<and>
      Preview_previous (Some ''t'') p = (Inr False, p)) \<and>
   (let p = (Preview_setRows [Map.empty, Map.empty, Map.empty] Preview_initial)\<lparr>currentIndex := 2\<rparr> in
      \<not> currentIndex p < int (length (pv_rows p)) - 1 \<and> currentIndex p > 0 \<and> cursor_ok p \<and>
      fst (Preview_previous (Some ''t'') p) = Inr True \<and>
      currentIndex (snd (Preview_previous (Some ''t'') p)) = 1 \<and>
      Preview_next (Some ''t'') p = (Inr False, p))"
proof -
  define pa where "pa = Preview_setRows [Map.empty, Map.empty, Map.empty] Preview_initial"
  define pb where "pb = pa\<lparr>currentIndex := 2\<rparr>"
  have a: "currentIndex pa = 0" "pv_rows pa = [Map.empty, Map.empty, Map.empty]" "cursor_ok pa"
    by (simp_all add: pa_def Preview_setRows_def cursor_ok_def)
  have b: "currentIndex pb = 2" "pv_rows pb = [Map.empty, Map.empty, Map.empty]" "cursor_ok pb"
    by (simp_all add: pb_def pa_def Preview_setRows_def cursor_ok_def)
  show ?thesis
    unfolding Let_def pa_def[symmetric] pb_def[symmetric]
    using Preview_cursor[where p = pa and template = "Some ''t''" and tpl = "''t''"]
      Preview_cursor[where p = pb and template = "Some ''t''" and tpl = "''t''"] a b
    by simp
qed

section \<open>Properties of the file names\<close>

lemma digit_in: "digit n \<in> set ''0123456789''"
proof -
  have "n mod 10 < length ''0123456789''" by simp
  then show ?thesis unfolding digit_def by (rule nth_mem)
qed

lemma show_nat_digits: "set (show_nat n) \<subseteq> set ''0123456789''"
proof (induction n rule: show_nat.induct)
  case (1 n)
  show ?case
  proof (cases "n < 10")
    case True
    then show ?thesis using digit_in[of n] by (subst show_nat.simps) simp
  next
    case False
    then show ?thesis using 1 digit_in[of n] by (subst show_nat.simps) simp
  qed
qed

lemma show_nat_not_Nil: "show_nat n \<noteq> []"
  by (subst show_nat.simps) simp

lemma is_alnum_not_space: "is_alnum c \<Longrightarrow> \<not> is_space c"
  by (auto simp: is_alnum_def is_space_def)

lemma digit_chars_alnum: "c \<in> set ''0123456789'' \<Longrightarrow> is_alnum c"
  by (auto simp: is_alnum_def)

lemma replace_space_runs_no_space:
  "\<forall>c\<in>set s. \<not> is_space c \<Longrightarrow> replace_space_runs s = s"
  by (induction s) simp_all

lemma replace_space_runs_set:
  "set (replace_space_runs s) \<subseteq> {c \<in> set s. \<not> is_space c} \<union> {CHR ''_''}"
proof (induction s rule: replace_space_runs.induct)
  case 1
  then show ?case by simp
next
  case (2 c cs)
  show ?case
  proof (cases "is_space c")
    case True
    have "set (dropWhile is_space cs) \<subseteq> set cs" by (rule set_dropWhileD[THEN subsetI])
    then show ?thesis using 2(1)[OF True] True by auto
  next
    case False
    then show ?thesis using 2(2)[OF False] by auto
  qed
qed

lemma replace_space_runs_length: "length (replace_space_runs s) \<le> length s"
proof (induction s rule: replace_space_runs.induct)
  case 1
  then show ?case by simp
next
  case (2 c cs)
  show ?case
  proof (cases "is_space c")
    case True
    have "length (dropWhile is_space cs) \<le> length cs" by (rule length_dropWhile_le)
    then show ?thesis using 2(1)[OF True] True by simp
  next
    case False
    then show ?thesis using 2(2)[OF False] by simp
  qed
qed

lemma replace_space_runs_append:
  assumes "a = [] \<or> \<not> is_space (last a)"
  shows "replace_space_runs (a @ b) = replace_space_runs a @ replace_space_runs b"
  using assms
proof (induction a rule: replace_space_runs.induct)
  case 1
  then show ?case by simp
next
  case (2 c cs)
  show ?case
  proof (cases "is_space c")
    case True
    with "2.prems" have ne: "cs \<noteq> []" and l: "\<not> is_space (last cs)" by (auto split: if_splits)
    then have ex: "last cs \<in> set cs" by simp
    have d: "dropWhile is_space (cs @ b) = dropWhile is_space cs @ b"
      using ex l by (rule dropWhile_append1)
    have dne: "dropWhile is_space cs \<noteq> []" using ex l by (auto simp: dropWhile_eq_Nil_conv)
    have "last (dropWhile is_space cs) = last cs"
      using dne by (metis last_appendR takeWhile_dropWhile_id)
    then have "dropWhile is_space cs = [] \<or> \<not> is_space (last (dropWhile is_space cs))"
      using l by simp
    from "2.IH"(1)[OF True this] show ?thesis using True d by simp
  next
    case False
    have "cs = [] \<or> \<not> is_space (last cs)" using "2.prems" by (auto split: if_splits)
    from "2.IH"(2)[OF False this] show ?thesis using False by simp
  qed
qed

lemma replace_space_runs_run:
  assumes "ws \<noteq> []" "\<forall>c\<in>set ws. is_space c" "b = [] \<or> \<not> is_space (hd b)"
  shows "replace_space_runs (ws @ b) = CHR ''_'' # replace_space_runs b"
proof -
  obtain w ws' where w: "ws = w # ws'" using assms(1) by (cases ws) auto
  have "dropWhile is_space (ws' @ b) = dropWhile is_space b"
    using assms(2) w by (simp add: dropWhile_append2)
  moreover have "dropWhile is_space b = b" using assms(3) by (cases b) auto
  ultimately show ?thesis using w assms(2) by simp
qed


lemma sanitized_chars:
  "\<forall>c\<in>set (sanitized name). is_alnum c \<or> c = CHR ''-'' \<or> c = CHR ''_''"
proof
  fix c assume "c \<in> set (sanitized name)"
  then have "c \<in> set (replace_space_runs (filter kept_char name))"
    unfolding sanitized_def by (rule in_set_takeD)
  then have "(c \<in> set (filter kept_char name) \<and> \<not> is_space c) \<or> c = CHR ''_''"
    using replace_space_runs_set[of "filter kept_char name"] by auto
  then show "is_alnum c \<or> c = CHR ''-'' \<or> c = CHR ''_''"
    by (auto simp: kept_char_def)
qed

lemma sanitized_length: "length (sanitized name) \<le> 50"
  by (simp add: sanitized_def)

lemma sanitized_Document:
  "sanitized (''Document_'' @ show_nat n) = take 50 (''Document_'' @ show_nat n)"
proof -
  have d: "\<forall>c\<in>set (show_nat n). is_alnum c"
    using show_nat_digits[of n] digit_chars_alnum by blast
  have a: "\<forall>c\<in>set ''Document_''. kept_char c \<and> \<not> is_space c"
    by (simp add: kept_char_def is_alnum_def is_space_def)
  have k: "\<forall>c\<in>set (''Document_'' @ show_nat n). kept_char c"
    using d a by (auto simp: kept_char_def)
  have s: "\<forall>c\<in>set (''Document_'' @ show_nat n). \<not> is_space c"
    using d a is_alnum_not_space by auto
  have "filter kept_char (''Document_'' @ show_nat n) = ''Document_'' @ show_nat n"
    using k by (simp only: filter_True)
  then show ?thesis using replace_space_runs_no_space[OF s] by (simp add: sanitized_def)
qed

text \<open>
  Claim C5. \<open>generateFilename\<close> is a function of the record and the index alone. It takes
  the value of \<open>Client\<close>, or \<open>Document_\<close> followed by the index plus one when the key is
  absent; it keeps the letters, digits, white space, hyphens and underscores of it and drops
  every other character; it replaces every run of white space by one underscore; it keeps
  the first 50 characters at most; and it appends \<open>_Specification.docx\<close>. So the part
  before the suffix has at most 50 characters, all of them letters, digits, hyphens or
  underscores. With \<open>Client\<close> = \<open>Acme & Sons, Inc.\<close> the name is
  \<open>Acme_Sons_Inc_Specification.docx\<close>, and without a \<open>Client\<close> at index 2 it is
  \<open>Document_3_Specification.docx\<close>.
\<close>

theorem generateFilename_spec:
  "generateFilename rowData index
     = take 50 (replace_space_runs (filter kept_char (clientName rowData index)))
       @ ''_Specification.docx'' \<and>
   (rowData ''Client'' = Some v \<and> v \<noteq> [] \<longrightarrow> clientName rowData index = v) \<and>
   (rowData ''Client'' = None \<longrightarrow>
      clientName rowData index = ''Document_'' @ show_nat (index + 1) \<and>
      generateFilename rowData index
        = take 50 (''Document_'' @ show_nat (index + 1)) @ ''_Specification.docx'') \<and>
   (\<exists>stem. generateFilename rowData index = stem @ ''_Specification.docx'' \<and>
      length stem \<le> 50 \<and> (\<forall>c\<in>set stem. is_alnum c \<or> c = CHR ''-'' \<or> c = CHR ''_'')) \<and>
   (ws \<noteq> [] \<and> (\<forall>c\<in>set ws. is_space c) \<and> (a = [] \<or> \<not> is_space (last a)) \<and>
    (b = [] \<or> \<not> is_space (hd b)) \<longrightarrow>
      replace_space_runs (a @ ws @ b)
        = replace_space_runs a @ CHR ''_'' # replace_space_runs b) \<and>
   ((\<forall>c\<in>set s. \<not> is_space c) \<longrightarrow> replace_space_runs s = s) \<and>
   generateFilename [''Client'' \<mapsto> ''Acme & Sons, Inc.''] 0 = ''Acme_Sons_Inc_Specification.docx'' \<and>
   generateFilename Map.empty 2 = ''Document_3_Specification.docx''"
proof -
  have 1: "generateFilename rowData index
     = take 50 (replace_space_runs (filter kept_char (clientName rowData index)))
       @ ''_Specification.docx''"
    by (simp add: generateFilename_def sanitized_def)
  have 2: "rowData ''Client'' = Some v \<and> v \<noteq> [] \<longrightarrow> clientName rowData index = v"
    by (simp add: clientName_def)
  have 3: "rowData ''Client'' = None \<longrightarrow>
      clientName rowData index = ''Document_'' @ show_nat (index + 1) \<and>
      generateFilename rowData index
        = take 50 (''Document_'' @ show_nat (index + 1)) @ ''_Specification.docx''"
    using sanitized_Document[of "index + 1"] by (simp add: generateFilename_def clientName_def)
  have 4: "\<exists>stem. generateFilename rowData index = stem @ ''_Specification.docx'' \<and>
      length stem \<le> 50 \<and> (\<forall>c\<in>set stem. is_alnum c \<or> c = CHR ''-'' \<or> c = CHR ''_'')"
    using sanitized_chars[of "clientName rowData index"] sanitized_length[of "clientName rowData index"]
    unfolding generateFilename_def by blast
  have 5: "ws \<noteq> [] \<and> (\<forall>c\<in>set ws. is_space c) \<and> (a = [] \<or> \<not> is_space (last a)) \<and>
    (b = [] \<or> \<not> is_space (hd b)) \<longrightarrow>
      replace_space_runs (a @ ws @ b)
        = replace_space_runs a @ CHR ''_'' # replace_space_runs b"
  proof
    assume h: "ws \<noteq> [] \<and> (\<forall>c\<in>set ws. is_space c) \<and> (a = [] \<or> \<not> is_space (last a)) \<and>
      (b = [] \<or> \<not> is_space (hd b))"
    then have "replace_space_runs (a @ ws @ b) = replace_space_runs a @ replace_space_runs (ws @ b)"
      using replace_space_runs_append[of a "ws @ b"] by blast
    moreover have "replace_space_runs (ws @ b) = CHR ''_'' # replace_space_runs b"
      using h replace_space_runs_run[of ws b] by blast
    ultimately show "replace_space_runs (a @ ws @ b)
        = replace_space_runs a @ CHR ''_'' # replace_space_runs b" by simp
  qed
  have 6: "(\<forall>c\<in>set s. \<not> is_space c) \<longrightarrow> replace_space_runs s = s"
    using replace_space_runs_no_space[of s] by blast
  have 7: "generateFilename [''Client'' \<mapsto> ''Acme & Sons, Inc.''] 0 = ''Acme_Sons_Inc_Specification.docx''"
    by code_simp
  have 8: "generateFilename Map.empty 2 = ''Document_3_Specification.docx''"
    by code_simp
  show ?thesis by (intro conjI; fact)
qed

theorem generateFilename_spec_witness:
  "[''Client'' \<mapsto> ''Acme & Sons, Inc.''] ''Client'' = Some ''Acme & Sons, Inc.'' \<and>
   ''Acme & Sons, Inc.'' \<noteq> [] \<and>
   clientName [''Client'' \<mapsto> ''Acme & Sons, Inc.''] 0 = ''Acme & Sons, Inc.'' \<and>
   generateFilename [''Client'' \<mapsto> ''Acme & Sons, Inc.''] 0 = ''Acme_Sons_Inc_Specification.docx'' \<and>
   (Map.empty :: row) ''Client'' = None \<and>
   clientName Map.empty 2 = ''Document_'' @ show_nat (2 + 1) \<and>
   show_nat (2 + 1) = ''3'' \<and>
   generateFilename Map.empty 2 = ''Document_3_Specification.docx'' \<and>
   list_all is_space ''  '' \<and> \<not> is_space (last ''a'') \<and> \<not> is_space (hd ''b'') \<and>
   replace_space_runs (''a'' @ ''  '' @ ''b'')
     = replace_space_runs ''a'' @ CHR ''_'' # replace_space_runs ''b'' \<and>
   list_all (\<lambda>c. \<not> is_space c) ''ab'' \<and> replace_space_runs ''ab'' = ''ab''"
proof -
  note T = generateFilename_spec[where rowData = "[''Client'' \<mapsto> ''Acme & Sons, Inc.'']"
        and index = 0 and v = "''Acme & Sons, Inc.''" and ws = "''  ''" and a = "''a''"
        and b = "''b''" and s = "''ab''"]
  note U = generateFilename_spec[where rowData = "Map.empty" and index = 2]
  have h1: "[''Client'' \<mapsto> ''Acme & Sons, Inc.''] ''Client'' = Some ''Acme & Sons, Inc.''"
    and h2: "''Acme & Sons, Inc.'' \<noteq> []" by simp_all
  have c2: "clientName [''Client'' \<mapsto> ''Acme & Sons, Inc.''] 0 = ''Acme & Sons, Inc.''"
    by (rule mp[OF T[THEN conjunct2, THEN conjunct1] conjI[OF h1 h2]])
  have c7: "generateFilename [''Client'' \<mapsto> ''Acme & Sons, Inc.''] 0 = ''Acme_Sons_Inc_Specification.docx''"
    by (rule T[THEN conjunct2, THEN conjunct2, THEN conjunct2, THEN conjunct2, THEN conjunct2,
          THEN conjunct2, THEN conjunct1])
  have h3: "(Map.empty :: row) ''Client'' = None" by simp
  have c3: "clientName Map.empty 2 = ''Document_'' @ show_nat (2 + 1)"
    by (rule mp[OF U[THEN conjunct2, THEN conjunct2, THEN conjunct1] h3, THEN conjunct1])
  have n: "show_nat (2 + 1) = ''3''" by code_simp
  have c8: "generateFilename Map.empty 2 = ''Document_3_Specification.docx''"
    by (rule U[THEN conjunct2, THEN conjunct2, THEN conjunct2, THEN conjunct2, THEN conjunct2,
          THEN conjunct2, THEN conjunct2])
  have h5: "''  '' \<noteq> []" "\<forall>c\<in>set ''  ''. is_space c" "\<not> is_space (last ''a'')"
    "\<not> is_space (hd ''b'')"
    by (simp_all add: is_space_def)
  have c5: "replace_space_runs (''a'' @ ''  '' @ ''b'')
     = replace_space_runs ''a'' @ CHR ''_'' # replace_space_runs ''b''"
    by (rule mp[OF T[THEN conjunct2, THEN conjunct2, THEN conjunct2, THEN conjunct2,
          THEN conjunct1]]) (intro conjI disjI2 h5)
  have h6: "\<forall>c\<in>set ''ab''. \<not> is_space c" by (simp add: is_space_def)
  have l5: "list_all is_space ''  ''" and l6: "list_all (\<lambda>c. \<not> is_space c) ''ab''"
    by (simp_all add: is_space_def)
  have c6: "replace_space_runs ''ab'' = ''ab''"
    by (rule mp[OF T[THEN conjunct2, THEN conjunct2, THEN conjunct2, THEN conjunct2,
          THEN conjunct2, THEN conjunct1] h6])
  show ?thesis by (intro conjI; fact)
qed

text \<open>
  Claim C10. A record whose \<open>Client\<close> is the empty string gets the same file name as a
  record without the key \<open>Client\<close>: the name made from \<open>Document_\<close> and the index plus
  one.
\<close>

theorem generateFilename_empty_Client:
  "r1 ''Client'' = Some [] \<and> r2 ''Client'' = None \<longrightarrow>
     generateFilename r1 index = generateFilename r2 index \<and>
     generateFilename r1 index
       = take 50 (''Document_'' @ show_nat (index + 1)) @ ''_Specification.docx''"
  using sanitized_Document[of "index + 1"] by (simp add: generateFilename_def clientName_def)


theorem generateFilename_empty_Client_witness:
  "[''Client'' \<mapsto> []] ''Client'' = Some [] \<and> (Map.empty :: row) ''Client'' = None \<and>
   generateFilename [''Client'' \<mapsto> []] 2 = generateFilename Map.empty 2 \<and>
   generateFilename [''Client'' \<mapsto> []] 2 = ''Document_3_Specification.docx''"
proof -
  have 1: "show_nat (2 + 1) = ''3''" by code_simp
  have h: "generateFilename [''Client'' \<mapsto> []] 2 = generateFilename Map.empty 2 \<and>
     generateFilename [''Client'' \<mapsto> []] 2
       = take 50 (''Document_'' @ show_nat (2 + 1)) @ ''_Specification.docx''"
    by (rule generateFilename_empty_Client[where ?r1.0 = "[''Client'' \<mapsto> []]"
        and ?r2.0 = Map.empty and index = 2, THEN mp]) simp
  have a: "generateFilename [''Client'' \<mapsto> []] 2 = ''Document_3_Specification.docx''"
    unfolding conjunct2[OF h] 1 by simp
  show ?thesis
    by (intro conjI, simp, simp, rule conjunct1[OF h], rule a)
qed

section \<open>Properties of the archive\<close>

lemma digit_inj: "a < 10 \<Longrightarrow> b < 10 \<Longrightarrow> digit a = digit b \<Longrightarrow> a = b"
proof -
  assume a: "a < 10" and b: "b < 10" and e: "digit a = digit b"
  have d: "distinct ''0123456789''" by simp
  have "''0123456789'' ! a = ''0123456789'' ! b" using e a b by (simp add: digit_def)
  then show "a = b" using d a b by (simp add: nth_eq_iff_index_eq)
qed

lemma show_nat_inj: "show_nat m = show_nat n \<Longrightarrow> m = n"
proof (induction m arbitrary: n rule: show_nat.induct)
  case (1 m)
  show ?case
  proof (cases "m < 10")
    case True
    then have sm: "show_nat m = [digit m]" by (subst show_nat.simps) simp
    show ?thesis
    proof (cases "n < 10")
      case n: True
      then have "show_nat n = [digit n]" by (subst show_nat.simps) simp
      then show ?thesis using sm "1.prems" True n digit_inj by simp
    next
      case n: False
      then have "show_nat n = show_nat (n div 10) @ [digit n]" by (subst show_nat.simps) simp
      then show ?thesis using sm "1.prems" show_nat_not_Nil[of "n div 10"] by simp
    qed
  next
    case False
    then have sm: "show_nat m = show_nat (m div 10) @ [digit m]" by (subst show_nat.simps) simp
    show ?thesis
    proof (cases "n < 10")
      case n: True
      then have "show_nat n = [digit n]" by (subst show_nat.simps) simp
      then show ?thesis using sm "1.prems" show_nat_not_Nil[of "m div 10"] by simp
    next
      case n: False
      then have "show_nat n = show_nat (n div 10) @ [digit n]" by (subst show_nat.simps) simp
      then have e: "show_nat (m div 10) = show_nat (n div 10)" "digit m = digit n"
        using sm "1.prems" by simp_all
      have "m div 10 = n div 10" using "1.IH"[OF False e(1)] .
      moreover have "m mod 10 = n mod 10"
        using e(2) digit_inj[of "m mod 10" "n mod 10"] by (simp add: digit_def)
      ultimately show ?thesis by (metis div_mult_mod_eq)
    qed
  qed
qed

lemma split_last_eq:
  assumes "x \<notin> set d1" "x \<notin> set d2" "A @ x # d1 = B @ x # d2"
  shows "A = B \<and> d1 = d2"
proof -
  have "rev d1 @ x # rev A = rev d2 @ x # rev B"
    using arg_cong[OF assms(3), of rev] by simp
  then have "takeWhile (\<lambda>c. c \<noteq> x) (rev d1 @ x # rev A) = takeWhile (\<lambda>c. c \<noteq> x) (rev d2 @ x # rev B)"
    by simp
  moreover have "takeWhile (\<lambda>c. c \<noteq> x) (rev d1 @ x # rev A) = rev d1"
    using assms(1) by (auto simp: takeWhile_tail)
  moreover have "takeWhile (\<lambda>c. c \<noteq> x) (rev d2 @ x # rev B) = rev d2"
    using assms(2) by (auto simp: takeWhile_tail)
  ultimately have "d1 = d2" by simp
  then show ?thesis using assms(3) by simp
qed

lemma replace_first_docx:
  "CHR ''.'' \<notin> set st \<Longrightarrow> replace_first ''.docx'' rep (st @ ''.docx'' @ rest) = st @ rep @ rest"
  by (induction st) auto

lemma spec_name_generateFilename:
  "spec_name (sanitized (clientName rowData index)) (generateFilename rowData index)"
  using sanitized_chars[of "clientName rowData index"]
  by (simp add: spec_name_def generateFilename_def)

lemma spec_name_no_dot:
  assumes "spec_name st n"
  shows "CHR ''.'' \<notin> set (st @ ''_Specification'')"
proof -
  have "\<not> is_alnum (CHR ''.'')" by (simp add: is_alnum_def)
  then show ?thesis using assms by (auto simp: spec_name_def)
qed

lemma spec_name_numbered:
  assumes "spec_name st n"
  shows "numbered n k = st @ ''_Specification_'' @ show_nat k @ ''.docx''"
  using assms by (simp add: spec_name_def numbered_def)

lemma spec_name_candidate:
  assumes "spec_name st n"
  shows "replace_first ''.docx'' (''_'' @ show_nat k @ ''.docx'') n = numbered n k"
    and "replace_first ''.docx'' [] n @ ''_'' @ show_nat k @ ''.docx'' = numbered n k"
proof -
  have n: "n = (st @ ''_Specification'') @ ''.docx'' @ []" using assms by (simp add: spec_name_def)
  note d = spec_name_no_dot[OF assms]
  show "replace_first ''.docx'' (''_'' @ show_nat k @ ''.docx'') n = numbered n k"
    by (subst n, subst replace_first_docx[OF d]) (simp add: spec_name_numbered[OF assms])
  show "replace_first ''.docx'' [] n @ ''_'' @ show_nat k @ ''.docx'' = numbered n k"
    by (subst n, subst replace_first_docx[OF d]) (simp add: spec_name_numbered[OF assms])
qed

lemma numbered_not_spec_name:
  assumes "spec_name st n" "spec_name st' m"
  shows "numbered n k \<noteq> m"
proof
  assume "numbered n k = m"
  then have "st @ ''_Specification_'' @ show_nat k = st' @ ''_Specification''"
    using assms spec_name_numbered[OF assms(1), of k] by (simp add: spec_name_def)
  then have "last (st @ ''_Specification_'' @ show_nat k) = last (st' @ ''_Specification'')"
    by simp
  then have "last (show_nat k) = CHR ''n''" using show_nat_not_Nil[of k] by simp
  moreover have "last (show_nat k) \<in> set ''0123456789''"
    using show_nat_digits[of k] show_nat_not_Nil[of k] last_in_set by blast
  ultimately show False by simp
qed

lemma numbered_inj:
  assumes "spec_name st n" "spec_name st' m" "numbered n k = numbered m l"
  shows "n = m \<and> k = l"
proof -
  have u: "CHR ''_'' \<notin> set (show_nat k)" "CHR ''_'' \<notin> set (show_nat l)"
    using show_nat_digits[of k] show_nat_digits[of l] by auto
  have "(st @ ''_Specification'') @ CHR ''_'' # show_nat k = (st' @ ''_Specification'') @ CHR ''_'' # show_nat l"
    using assms(3) spec_name_numbered[OF assms(1), of k] spec_name_numbered[OF assms(2), of l]
    by simp
  from split_last_eq[OF u this] have "st = st'" "show_nat k = show_nat l" by simp_all
  then show ?thesis using assms(1,2) show_nat_inj by (simp add: spec_name_def)
qed

lemma spec_name_candidate_simp:
  assumes "spec_name st n"
  shows "replace_first ''.docx'' (CHR ''_'' # show_nat k @ ''.docx'') n = numbered n k"
    and "replace_first ''.docx'' [] n @ CHR ''_'' # show_nat k @ ''.docx'' = numbered n k"
  using spec_name_candidate[OF assms, of k] by simp_all

lemma createZip_while_free:
  assumes "j \<le> c" "\<forall>k. j \<le> k \<and> k < c \<longrightarrow> numbered n k \<in> set used" "numbered n c \<notin> set used"
    and "spec_name st n"
  shows "createZip_while used n (numbered n j) (j + 1) = Some (numbered n c)"
  using assms(1,2)
proof (induction "c - j" arbitrary: j)
  case 0
  then have "j = c" by simp
  then show ?case using assms(3) by (subst createZip_while.simps) simp
next
  case (Suc d)
  then have lt: "j < c" by simp
  then have "numbered n j \<in> set used" using Suc.prems(2) by simp
  then have "createZip_while used n (numbered n j) (j + 1)
      = createZip_while used n (numbered n (j + 1)) (j + 1 + 1)"
    by (subst createZip_while.simps) (simp add: spec_name_candidate_simp(1)[OF assms(4)])
  moreover have "createZip_while used n (numbered n (j + 1)) (j + 1 + 1) = Some (numbered n c)"
    by (rule Suc.hyps(1)) (use Suc.hyps(2) lt Suc.prems(2) in auto)
  ultimately show ?case by simp
qed

lemma createZip_while_result:
  assumes "spec_name st n"
    and "c = 0 \<longrightarrow> n \<notin> set used"
    and "c > 0 \<longrightarrow> n \<in> set used"
    and "\<forall>k. 1 \<le> k \<and> k < c \<longrightarrow> numbered n k \<in> set used"
    and "c > 0 \<longrightarrow> numbered n c \<notin> set used"
  shows "createZip_while used n n 1 = Some (entry_name n c)"
proof (cases "c = 0")
  case True
  then show ?thesis using assms(2) by (subst createZip_while.simps) (simp add: entry_name_def)
next
  case False
  then have "n \<in> set used" using assms(3) by simp
  then have "createZip_while used n n 1 = createZip_while used n (numbered n 1) (1 + 1)"
    by (subst createZip_while.simps) (simp add: spec_name_candidate_simp(1)[OF assms(1)])
  moreover have "createZip_while used n (numbered n 1) (1 + 1) = Some (numbered n c)"
    by (rule createZip_while_free[OF _ _ _ assms(1)]) (use False assms(4,5) in auto)
  ultimately show ?thesis using False by (simp add: entry_name_def)
qed

lemma createZip_baseName_while_free:
  assumes "j \<le> c" "\<forall>k. j \<le> k \<and> k < c \<longrightarrow> numbered n k \<in> set used" "numbered n c \<notin> set used"
    and "spec_name st n"
  shows "createZip_baseName_while used n (numbered n j) (j + 1) = Some (numbered n c)"
  using assms(1,2)
proof (induction "c - j" arbitrary: j)
  case 0
  then have "j = c" by simp
  then show ?case using assms(3) by (subst createZip_baseName_while.simps) simp
next
  case (Suc d)
  then have lt: "j < c" by simp
  then have "numbered n j \<in> set used" using Suc.prems(2) by simp
  then have "createZip_baseName_while used n (numbered n j) (j + 1)
      = createZip_baseName_while used n (numbered n (j + 1)) (j + 1 + 1)"
    by (subst createZip_baseName_while.simps) (simp add: spec_name_candidate_simp(2)[OF assms(4)])
  moreover have "createZip_baseName_while used n (numbered n (j + 1)) (j + 1 + 1) = Some (numbered n c)"
    by (rule Suc.hyps(1)) (use Suc.hyps(2) lt Suc.prems(2) in auto)
  ultimately show ?case by simp
qed

lemma createZip_baseName_while_result:
  assumes "spec_name st n"
    and "c = 0 \<longrightarrow> n \<notin> set used"
    and "c > 0 \<longrightarrow> n \<in> set used"
    and "\<forall>k. 1 \<le> k \<and> k < c \<longrightarrow> numbered n k \<in> set used"
    and "c > 0 \<longrightarrow> numbered n c \<notin> set used"
  shows "createZip_baseName_while used n n 1 = Some (entry_name n c)"
proof (cases "c = 0")
  case True
  then show ?thesis using assms(2)
    by (subst createZip_baseName_while.simps) (simp add: entry_name_def)
next
  case False
  then have "n \<in> set used" using assms(3) by simp
  then have "createZip_baseName_while used n n 1
      = createZip_baseName_while used n (numbered n 1) (1 + 1)"
    by (subst createZip_baseName_while.simps) (simp add: spec_name_candidate_simp(2)[OF assms(1)])
  moreover have "createZip_baseName_while used n (numbered n 1) (1 + 1) = Some (numbered n c)"
    by (rule createZip_baseName_while_free[OF _ _ _ assms(1)]) (use False assms(4,5) in auto)
  ultimately show ?thesis using False by (simp add: entry_name_def)
qed

text \<open>The names in the archive after the documents named \<open>seen\<close>.\<close>

lemma used_step:
  assumes gen: "\<forall>m\<in>set (seen @ [n]). \<exists>st. spec_name st m"
    and used: "set used = {entry_name m k | m k. k < count_list seen m}"
  shows "(count_list seen n = 0 \<longrightarrow> n \<notin> set used) \<and>
         (count_list seen n > 0 \<longrightarrow> n \<in> set used) \<and>
         (\<forall>k. 1 \<le> k \<and> k < count_list seen n \<longrightarrow> numbered n k \<in> set used) \<and>
         (count_list seen n > 0 \<longrightarrow> numbered n (count_list seen n) \<notin> set used) \<and>
         set (used @ [entry_name n (count_list seen n)])
           = {entry_name m k | m k. k < count_list (seen @ [n]) m}"
proof -
  let ?c = "count_list seen n"
  obtain st where st: "spec_name st n" using gen by auto
  have genm: "\<exists>st. spec_name st m" if "0 < count_list seen m" for m
  proof -
    have "m \<in> set seen" using that by (metis count_list_0_iff less_numeral_extra(3))
    then show ?thesis using gen by auto
  qed
  have 1: "n \<notin> set used" if "?c = 0"
  proof
    assume "n \<in> set used"
    then obtain m k where mk: "n = entry_name m k" "k < count_list seen m" using used by auto
    show False
    proof (cases "k = 0")
      case True
      then show ?thesis using mk that by (simp add: entry_name_def)
    next
      case False
      obtain st' where "spec_name st' m" using genm[of m] mk(2) by auto
      from numbered_not_spec_name[OF this st, of k] show ?thesis
        using mk(1) False by (simp add: entry_name_def)
    qed
  qed
  have 2: "n \<in> set used" if "?c > 0"
  proof -
    have "n = entry_name n 0" by (simp add: entry_name_def)
    then show ?thesis using used that by blast
  qed
  have 3: "numbered n k \<in> set used" if "1 \<le> k \<and> k < ?c" for k
  proof -
    have "numbered n k = entry_name n k" using that by (simp add: entry_name_def)
    then show ?thesis using used that by blast
  qed
  have 4: "numbered n ?c \<notin> set used" if "?c > 0"
  proof
    assume "numbered n ?c \<in> set used"
    then obtain m k where mk: "numbered n ?c = entry_name m k" "k < count_list seen m"
      using used by auto
    obtain st' where st': "spec_name st' m" using genm[of m] mk(2) by auto
    show False
    proof (cases "k = 0")
      case True
      then show ?thesis using numbered_not_spec_name[OF st st', of ?c] mk(1)
        by (simp add: entry_name_def)
    next
      case False
      then have "numbered n ?c = numbered m k" using mk(1) by (simp add: entry_name_def)
      from numbered_inj[OF st st' this] show ?thesis using mk(2) by auto
    qed
  qed
  have 5: "set (used @ [entry_name n ?c]) = {entry_name m k | m k. k < count_list (seen @ [n]) m}"
  proof -
    have "{entry_name m k | m k. k < count_list (seen @ [n]) m}
        = {entry_name m k | m k. k < count_list seen m} \<union> {entry_name n ?c}"
      by (auto simp: less_Suc_eq)
    then show ?thesis using used by simp
  qed
  show ?thesis using 1 2 3 4 5 by blast
qed

lemma createZip_for_spec_names:
  assumes "\<forall>m\<in>set (seen @ map fst docs). \<exists>st. spec_name st m"
    and "set used = {entry_name m k | m k. k < count_list seen m}"
  shows "createZip_for used docs = Some (zip (dedup_names seen (map fst docs)) (map snd docs))"
  using assms
proof (induction docs arbitrary: seen used)
  case Nil
  then show ?case by simp
next
  case (Cons doc docs)
  let ?n = "fst doc" and ?c = "count_list seen (fst doc)"
  obtain st where st: "spec_name st ?n" using Cons.prems(1) by auto
  have g: "\<forall>m\<in>set (seen @ [?n]). \<exists>st. spec_name st m" using Cons.prems(1) by auto
  note u = used_step[OF g Cons.prems(2)]
  have w: "createZip_while used ?n ?n 1 = Some (entry_name ?n ?c)"
    by (rule createZip_while_result[OF st]) (use u in blast)+
  have g': "\<forall>m\<in>set ((seen @ [?n]) @ map fst docs). \<exists>st. spec_name st m"
    using Cons.prems(1) by auto
  have "createZip_for (used @ [entry_name ?n ?c]) docs
      = Some (zip (dedup_names (seen @ [?n]) (map fst docs)) (map snd docs))"
    by (rule Cons.IH[OF g']) (use u in blast)
  then show ?case using w by simp
qed

lemma createZip_baseName_for_spec_names:
  assumes "\<forall>m\<in>set (seen @ map fst docs). \<exists>st. spec_name st m"
    and "set used = {entry_name m k | m k. k < count_list seen m}"
  shows "createZip_baseName_for used docs
         = Some (zip (dedup_names seen (map fst docs)) (map snd docs))"
  using assms
proof (induction docs arbitrary: seen used)
  case Nil
  then show ?case by simp
next
  case (Cons doc docs)
  let ?n = "fst doc" and ?c = "count_list seen (fst doc)"
  obtain st where st: "spec_name st ?n" using Cons.prems(1) by auto
  have g: "\<forall>m\<in>set (seen @ [?n]). \<exists>st. spec_name st m" using Cons.prems(1) by auto
  note u = used_step[OF g Cons.prems(2)]
  have w: "createZip_baseName_while used ?n ?n 1 = Some (entry_name ?n ?c)"
    by (rule createZip_baseName_while_result[OF st]) (use u in blast)+
  have g': "\<forall>m\<in>set ((seen @ [?n]) @ map fst docs). \<exists>st. spec_name st m"
    using Cons.prems(1) by auto
  have "createZip_baseName_for (used @ [entry_name ?n ?c]) docs
      = Some (zip (dedup_names (seen @ [?n]) (map fst docs)) (map snd docs))"
    by (rule Cons.IH[OF g']) (use u in blast)
  then show ?case using w by simp
qed

lemma createZip_while_fresh:
  assumes "createZip_while used n f c = Some r"
  shows "r \<notin> set used"
  by (rule createZip_while.raw_induct[where P = "\<lambda>used n f c r. r \<notin> set used", OF _ assms])
    (auto split: if_splits)

lemma createZip_baseName_while_fresh:
  assumes "createZip_baseName_while used n f c = Some r"
  shows "r \<notin> set used"
  by (rule createZip_baseName_while.raw_induct[where P = "\<lambda>used n f c r. r \<notin> set used",
        OF _ assms])
    (auto split: if_splits)

lemma createZip_for_distinct:
  "createZip_for used docs = Some es \<Longrightarrow>
     distinct (map fst es) \<and> set (map fst es) \<inter> set used = {}"
proof (induction docs arbitrary: used es)
  case Nil
  then show ?case by simp
next
  case (Cons doc docs)
  from Cons.prems obtain f es' where
    f: "createZip_while used (fst doc) (fst doc) 1 = Some f"
    and es': "createZip_for (used @ [f]) docs = Some es'"
    and es: "es = (f, snd doc) # es'"
    by (auto split: option.splits)
  from Cons.IH[OF es'] createZip_while_fresh[OF f] show ?case using es by auto
qed

lemma createZip_baseName_for_distinct:
  "createZip_baseName_for used docs = Some es \<Longrightarrow>
     distinct (map fst es) \<and> set (map fst es) \<inter> set used = {}"
proof (induction docs arbitrary: used es)
  case Nil
  then show ?case by simp
next
  case (Cons doc docs)
  from Cons.prems obtain f es' where
    f: "createZip_baseName_while used (fst doc) (fst doc) 1 = Some f"
    and es': "createZip_baseName_for (used @ [f]) docs = Some es'"
    and es: "es = (f, snd doc) # es'"
    by (auto split: option.splits)
  from Cons.IH[OF es'] createZip_baseName_while_fresh[OF f] show ?case using es by auto
qed

lemma dedup_names_length: "length (dedup_names seen ns) = length ns"
  by (induction ns arbitrary: seen) simp_all

lemma dedup_names_nth:
  "j < length ns \<Longrightarrow>
     dedup_names seen ns ! j = entry_name (ns ! j) (count_list (seen @ take j ns) (ns ! j))"
proof (induction ns arbitrary: seen j)
  case Nil
  then show ?case by simp
next
  case (Cons n ns)
  show ?case
  proof (cases j)
    case 0
    then show ?thesis by simp
  next
    case (Suc i)
    then have "i < length ns" using Cons.prems by simp
    from Cons.IH[OF this, of "seen @ [n]"] show ?thesis using Suc by simp
  qed
qed

lemma named_documents_spec_names:
  "\<forall>m\<in>set (map fst (named_documents inputs)). \<exists>st. spec_name st m"
proof
  fix m assume "m \<in> set (map fst (named_documents inputs))"
  then obtain r i where "m = generateFilename r i" by (auto simp: named_documents_def)
  then show "\<exists>st. spec_name st m" using spec_name_generateFilename by blast
qed

text \<open>
  Claim C6. For documents named by \<open>generateFilename\<close>, \<open>createZip\<close> (in both
  generations of the module) ends and adds one entry for each document, in order, with the
  document's blob. A document whose name has not occurred before keeps its name; the one
  whose name has occurred \<open>k\<close> times before gets \<open>_k\<close> put before the suffix \<open>.docx\<close>, so
  the second of a group gets \<open>_1\<close>. The names of the entries are all different.
\<close>

theorem createZip_unique_names:
  "\<exists>entries.
     createZip (named_documents inputs) = Some entries \<and>
     createZip_baseName (named_documents inputs) = Some entries \<and>
     length entries = length inputs \<and>
     map snd entries = map snd (named_documents inputs) \<and>
     distinct (map fst entries) \<and>
     (\<forall>j<length inputs.
        let n = fst (named_documents inputs ! j);
            k = count_list (take j (map fst (named_documents inputs))) n
        in fst (entries ! j) = (if k = 0 then n else numbered n k))"
proof -
  let ?docs = "named_documents inputs"
  let ?es = "zip (dedup_names [] (map fst ?docs)) (map snd ?docs)"
  have g: "\<forall>m\<in>set ([] @ map fst ?docs). \<exists>st. spec_name st m"
    using named_documents_spec_names[of inputs] by simp
  have u: "set [] = {entry_name m k | m k. k < count_list [] m}" by simp
  have 1: "createZip ?docs = Some ?es"
    unfolding createZip_def by (rule createZip_for_spec_names[OF g u])
  have 2: "createZip_baseName ?docs = Some ?es"
    unfolding createZip_baseName_def by (rule createZip_baseName_for_spec_names[OF g u])
  have l: "length ?docs = length inputs" by (simp add: named_documents_def)
  have 3: "length ?es = length inputs" using l by (simp add: dedup_names_length)
  have 4: "map snd ?es = map snd ?docs" by (simp add: dedup_names_length)
  have f: "map fst ?es = dedup_names [] (map fst ?docs)" by (simp add: dedup_names_length)
  have 5: "distinct (map fst ?es)"
    using createZip_for_distinct[OF 1[unfolded createZip_def]] by simp
  have 6: "\<forall>j<length inputs.
        let n = fst (?docs ! j); k = count_list (take j (map fst ?docs)) n
        in fst (?es ! j) = (if k = 0 then n else numbered n k)"
  proof (intro allI impI)
    fix j assume j: "j < length inputs"
    then have "fst (?es ! j) = dedup_names [] (map fst ?docs) ! j"
      using l by (simp add: dedup_names_length)
    also have "\<dots> = entry_name (map fst ?docs ! j) (count_list ([] @ take j (map fst ?docs)) (map fst ?docs ! j))"
      by (rule dedup_names_nth) (use j l in simp)
    finally show "let n = fst (?docs ! j); k = count_list (take j (map fst ?docs)) n
        in fst (?es ! j) = (if k = 0 then n else numbered n k)"
      using j l by (simp add: entry_name_def Let_def)
  qed
  show ?thesis
    by (rule exI[of _ ?es]) (intro conjI 1 2 3 4 5 6)
qed

theorem createZip_unique_names_witness:
  "named_documents [([''Client'' \<mapsto> ''A''], 0::nat, 1::nat), ([''Client'' \<mapsto> ''A''], 1, 2),
        (Map.empty, 2, 3)]
     = [(''A_Specification.docx'', 1), (''A_Specification.docx'', 2),
        (''Document_3_Specification.docx'', 3)] \<and>
   createZip [(''A_Specification.docx'', 1::nat), (''A_Specification.docx'', 2),
        (''Document_3_Specification.docx'', 3)]
     = Some [(''A_Specification.docx'', 1), (''A_Specification_1.docx'', 2),
        (''Document_3_Specification.docx'', 3)] \<and>
   createZip_baseName [(''A_Specification.docx'', 1::nat), (''A_Specification.docx'', 2),
        (''Document_3_Specification.docx'', 3)]
     = Some [(''A_Specification.docx'', 1), (''A_Specification_1.docx'', 2),
        (''Document_3_Specification.docx'', 3)] \<and>
   (1::nat) < length [([''Client'' \<mapsto> ''A''], 0::nat, 1::nat), ([''Client'' \<mapsto> ''A''], 1, 2), (Map.empty, 2, 3)] \<and>
   distinct [''A_Specification.docx'', ''A_Specification_1.docx'', ''Document_3_Specification.docx''] \<and>
   (let n = fst ([(''A_Specification.docx'', 1::nat), (''A_Specification.docx'', 2),
                  (''Document_3_Specification.docx'', 3)] ! 1);
        k = count_list (take 1 (map fst [(''A_Specification.docx'', 1::nat),
              (''A_Specification.docx'', 2), (''Document_3_Specification.docx'', 3)])) n
    in fst ([(''A_Specification.docx'', 1::nat), (''A_Specification_1.docx'', 2),
             (''Document_3_Specification.docx'', 3)] ! 1) = (if k = 0 then n else numbered n k))"
proof -
  let ?inputs = "[([''Client'' \<mapsto> ''A''], 0::nat, 1::nat), ([''Client'' \<mapsto> ''A''], 1, 2),
        (Map.empty, 2, 3)]"
  let ?docs = "[(''A_Specification.docx'', 1::nat), (''A_Specification.docx'', 2),
        (''Document_3_Specification.docx'', 3)]"
  let ?es = "[(''A_Specification.docx'', 1::nat), (''A_Specification_1.docx'', 2),
        (''Document_3_Specification.docx'', 3)]"
  have d: "named_documents ?inputs = ?docs" by code_simp
  have cz: "createZip ?docs = Some ?es" by code_simp
  from createZip_unique_names[of ?inputs]
  obtain entries where E:
    "createZip (named_documents ?inputs) = Some entries \<and>
     createZip_baseName (named_documents ?inputs) = Some entries \<and>
     length entries = length ?inputs \<and>
     map snd entries = map snd (named_documents ?inputs) \<and>
     distinct (map fst entries) \<and>
     (\<forall>j<length ?inputs.
        let n = fst (named_documents ?inputs ! j);
            k = count_list (take j (map fst (named_documents ?inputs))) n
        in fst (entries ! j) = (if k = 0 then n else numbered n k))"
    by (rule exE) blast
  have en: "entries = ?es" using E[THEN conjunct1] cz unfolding d by simp
  have 2: "createZip_baseName ?docs = Some ?es"
    using E[THEN conjunct2, THEN conjunct1] unfolding d en .
  have l: "(1::nat) < length ?inputs" by simp
  have 5: "distinct [''A_Specification.docx'', ''A_Specification_1.docx'', ''Document_3_Specification.docx'']"
    using E[THEN conjunct2, THEN conjunct2, THEN conjunct2, THEN conjunct2, THEN conjunct1]
    unfolding en by simp
  have 6: "let n = fst (?docs ! 1); k = count_list (take 1 (map fst ?docs)) n
    in fst (?es ! 1) = (if k = 0 then n else numbered n k)"
    using E[THEN conjunct2, THEN conjunct2, THEN conjunct2, THEN conjunct2, THEN conjunct2,
        rule_format, OF l]
    unfolding d en .
  show ?thesis by (intro conjI d cz 2 l 5 6)
qed

section \<open>Properties of the template fill\<close>

lemma escapeHtml_concat: "escapeHtml v = concat (map escape_char v)"
  by (simp add: escapeHtml_def)

lemma escapeHtml_append: "escapeHtml (a @ b) = escapeHtml a @ escapeHtml b"
  by (simp add: escapeHtml_concat)

lemma escape_char_set:
  "set (escape_char c) \<subseteq> (if c \<in> {CHR ''&'', NBSP, CHR ''<'', CHR ''>''} then set ''&ampnbsltg;'' else {c})"
  by (simp add: escape_char_def)

lemma escapeHtml_no_markup:
  "CHR ''<'' \<notin> set (escapeHtml v) \<and> CHR ''>'' \<notin> set (escapeHtml v) \<and> NBSP \<notin> set (escapeHtml v)"
  by (induction v) (auto simp: escapeHtml_concat escape_char_def)

lemma escapeHtml_quotes:
  "filter (\<lambda>c. c = DQ \<or> c = SQ) (escapeHtml v) = filter (\<lambda>c. c = DQ \<or> c = SQ) v"
  by (induction v) (auto simp: escapeHtml_concat escape_char_def)

lemma html_text_escape_char: "html_text (escape_char c @ rest) = c # html_text rest"
  by (simp add: escape_char_def)

lemma html_text_escapeHtml: "html_text (escapeHtml v) = v"
  by (induction v) (simp_all add: escapeHtml_concat html_text_escape_char del: html_text.simps(2))

lemma no_script: "\<not> sublist ''<script>'' (escapeHtml v)"
proof
  assume "sublist ''<script>'' (escapeHtml v)"
  then have "set ''<script>'' \<subseteq> set (escapeHtml v)" by (rule set_mono_sublist)
  then show False using escapeHtml_no_markup[of v] by simp
qed

text \<open>
  Claim C2, as the code has it. The value put into the markup is the value escaped as the
  browser escapes text: \<open>&\<close>, \<open><\<close> and \<open>>\<close> (and the no-break space) are replaced by
  entities, so the escaped value holds no \<open><\<close> and no \<open>>\<close>, in particular no
  \<open><script>\<close> tag, and it reads back as the value. The double quote and the single quote
  are not replaced: they pass as they are. \<open>fillHtmlTemplate\<close> joins with the escaped value
  always, \<open>fillTemplate\<close> whenever the value is not empty.
\<close>

theorem escapeHtml_escapes_text:
  "CHR ''<'' \<notin> set (escapeHtml v) \<and> CHR ''>'' \<notin> set (escapeHtml v) \<and>
   \<not> sublist ''<script>'' (escapeHtml v) \<and>
   html_text (escapeHtml v) = v \<and>
   escapeHtml (a @ b) = escapeHtml a @ escapeHtml b \<and>
   escapeHtml ''&'' = ''&amp;'' \<and> escapeHtml ''<'' = ''&lt;'' \<and> escapeHtml ''>'' = ''&gt;'' \<and>
   escapeHtml [DQ] = [DQ] \<and> escapeHtml [SQ] = [SQ] \<and>
   filter (\<lambda>c. c = DQ \<or> c = SQ) (escapeHtml v) = filter (\<lambda>c. c = DQ \<or> c = SQ) v \<and>
   fillHtmlTemplate_step row html (col, tag)
     = js_join (escapeHtml (value_or_empty row col)) (js_split (''['' @ tag @ '']'') html) \<and>
   (value_or_empty row col \<noteq> [] \<longrightarrow>
      fillTemplate_step row html (col, placeholder)
        = js_join (escapeHtml (value_or_empty row col)) (js_split placeholder html)) \<and>
   fillHtmlTemplate (Some ''<b>[INSERT_CLIENT_NAME]</b>'') [''Client'' \<mapsto> ''<script>'']
     = ''<b>&lt;script&gt;</b>''"
proof -
  have ne: "v' \<noteq> [] \<Longrightarrow> escapeHtml v' \<noteq> []" for v'
    by (cases v') (auto simp: escapeHtml_concat escape_char_def)
  have 1: "value_or_empty row col \<noteq> [] \<longrightarrow>
      fillTemplate_step row html (col, placeholder)
        = js_join (escapeHtml (value_or_empty row col)) (js_split placeholder html)"
    using ne by (simp add: fillTemplate_step_def Let_def)
  have 2: "fillHtmlTemplate (Some ''<b>[INSERT_CLIENT_NAME]</b>'') [''Client'' \<mapsto> ''<script>'']
     = ''<b>&lt;script&gt;</b>''"
    by code_simp
  have 3: "fillHtmlTemplate_step row html (col, tag)
     = js_join (escapeHtml (value_or_empty row col)) (js_split (''['' @ tag @ '']'') html)"
    by (simp add: fillHtmlTemplate_step_def Let_def)
  have 4: "escapeHtml ''&'' = ''&amp;''" "escapeHtml ''<'' = ''&lt;''" "escapeHtml ''>'' = ''&gt;''"
    "escapeHtml [DQ] = [DQ]" "escapeHtml [SQ] = [SQ]"
    by (simp_all add: escapeHtml_def escape_char_def)
  show ?thesis
    using escapeHtml_no_markup[of v] no_script[of v] html_text_escapeHtml[of v]
      escapeHtml_append[of a b] escapeHtml_quotes[of v] 1 2 3 4
    by (intro conjI) blast+
qed

theorem escapeHtml_escapes_text_witness:
  "value_or_empty [''Client'' \<mapsto> ''<script>''] ''Client'' \<noteq> [] \<and>
   fillTemplate_step [''Client'' \<mapsto> ''<script>''] ''x[T]'' (''Client'', ''[T]'')
     = ''x&lt;script&gt;''"
proof -
  let ?row = "[''Client'' \<mapsto> ''<script>'']"
  note T = escapeHtml_escapes_text[where row = ?row and col = "''Client''" and html = "''x[T]''"
      and placeholder = "''[T]''"]
  have h: "value_or_empty ?row ''Client'' \<noteq> []" by (simp add: value_or_empty_def)
  have e: "js_join (escapeHtml (value_or_empty ?row ''Client'')) (js_split ''[T]'' ''x[T]'')
           = ''x&lt;script&gt;''" by code_simp
  have c: "fillTemplate_step ?row ''x[T]'' (''Client'', ''[T]'') = ''x&lt;script&gt;''"
    using T[THEN conjunct2, THEN conjunct2, THEN conjunct2, THEN conjunct2, THEN conjunct2,
        THEN conjunct2, THEN conjunct2, THEN conjunct2, THEN conjunct2, THEN conjunct2,
        THEN conjunct2, THEN conjunct2, THEN conjunct1, THEN mp, OF h]
    unfolding e .
  show ?thesis by (intro conjI) (rule h, rule c)
qed

text \<open>
  Claim C2 as it is stated fails for the two quotation marks: a value made of a double and
  a single quote comes out of \<open>escapeHtml\<close>, and of both fills, unchanged.
\<close>

theorem escapeHtml_quotes_counterexample:
  "escapeHtml [DQ, SQ] = [DQ, SQ] \<and>
   fillHtmlTemplate (Some ''[INSERT_CLIENT_NAME]'') [''Client'' \<mapsto> [DQ, SQ]] = [DQ, SQ] \<and>
   fillTemplate (Some ''[INSERT_CLIENT_NAME]'') [''Client'' \<mapsto> [DQ, SQ]] = Inr [DQ, SQ]"
  by code_simp

lemma split_from_not_Nil: "split_from sep cur s \<noteq> []"
  by (induction sep cur s rule: split_from.induct) simp_all

lemma js_join_Cons: "xs \<noteq> [] \<Longrightarrow> js_join sep (x # xs) = x @ sep @ js_join sep xs"
  by (cases xs) simp_all

lemma js_join_split_from: "js_join sep (split_from sep cur s) = cur @ s"
proof (induction sep cur s rule: split_from.induct)
  case (1 sep cur)
  then show ?case by simp
next
  case (2 sep cur c cs)
  show ?case
  proof (cases "sep \<noteq> [] \<and> prefix sep (c # cs)")
    case True
    then have t: "take (length sep) (c # cs) = sep" by (auto simp: prefix_def)
    have "js_join sep (split_from sep cur (c # cs))
        = cur @ sep @ js_join sep (split_from sep [] (drop (length sep) (c # cs)))"
      using True by (simp add: js_join_Cons[OF split_from_not_Nil])
    also have "\<dots> = cur @ sep @ drop (length sep) (c # cs)"
      using 2(1)[OF True] by simp
    also have "\<dots> = cur @ take (length sep) (c # cs) @ drop (length sep) (c # cs)"
      by (simp only: t)
    finally show ?thesis by (simp only: append_take_drop_id)
  next
    case False
    then show ?thesis using 2(2)[OF False] by auto
  qed
qed

lemma js_join_js_split: "sep \<noteq> [] \<Longrightarrow> js_join sep (js_split sep s) = s"
  using js_join_split_from[of sep "[]" s] by (simp add: js_split_def)

lemma fillTemplate_step_empty:
  assumes "value_or_empty row col = []" "placeholder \<noteq> []"
  shows "fillTemplate_step row html (col, placeholder) = html"
  using assms js_join_js_split[of placeholder html]
  by (simp add: fillTemplate_step_def escapeHtml_def)

lemma foldl_fillTemplate_step_empty:
  assumes "\<forall>(col, placeholder)\<in>set ms. value_or_empty row col = [] \<and> placeholder \<noteq> []"
  shows "foldl (fillTemplate_step row) html ms = html"
  using assms
proof (induction ms arbitrary: html)
  case Nil
  then show ?case by simp
next
  case (Cons m ms)
  obtain col placeholder where m: "m = (col, placeholder)" by (cases m)
  have "fillTemplate_step row html m = html"
    using Cons.prems m fillTemplate_step_empty[of row col placeholder html] by simp
  then show ?case using Cons by simp
qed

lemma placeholder_mappings_not_Nil: "\<forall>(col, placeholder)\<in>set placeholder_mappings. placeholder \<noteq> []"
  by (simp add: placeholder_mappings_def)

lemma fillTemplate_all_empty:
  assumes "\<forall>(col, placeholder)\<in>set placeholder_mappings. value_or_empty row col = []" "t \<noteq> []"
  shows "fillTemplate (Some t) row
    = Inr (js_join (escapeHtml (if fileValues row = [] then ''No files uploaded'' else fileValues row))
        (js_split fileMappings_placeholder t))"
proof -
  have "\<forall>(col, placeholder)\<in>set placeholder_mappings. value_or_empty row col = [] \<and> placeholder \<noteq> []"
    using assms(1) placeholder_mappings_not_Nil by fastforce
  from foldl_fillTemplate_step_empty[OF this] show ?thesis
    using assms(2) by (simp add: fillTemplate_def Let_def)
qed

text \<open>Scanning for a bracketed tag.\<close>

lemma split_from_skip:
  assumes "a \<notin> set t"
  shows "split_from (a # p) cur (t @ X) = split_from (a # p) (cur @ t) X"
  using assms
  by (induction t arbitrary: cur) auto

lemma split_from_match:
  "split_from (a # p) cur ((a # p) @ X) = cur # split_from (a # p) [] X"
  by simp

lemma prefix_same_terminator:
  assumes "x \<notin> set s" "x \<notin> set t" "prefix (s @ [x]) (t @ x # X)"
  shows "s = t"
proof -
  obtain Z where "t @ x # X = s @ x # Z" using assms(3) by (auto simp: prefix_def)
  then have "takeWhile (\<lambda>c. c \<noteq> x) (t @ x # X) = takeWhile (\<lambda>c. c \<noteq> x) (s @ x # Z)" by simp
  moreover have "takeWhile (\<lambda>c. c \<noteq> x) t = t" "takeWhile (\<lambda>c. c \<noteq> x) s = s"
    using assms(1,2) by (auto simp: takeWhile_eq_all_conv)
  ultimately show ?thesis using assms(1,2) by (auto simp: takeWhile_tail)
qed

lemma split_from_other_token:
  assumes "CHR '']'' \<notin> set s" "CHR '']'' \<notin> set t" "CHR ''['' \<notin> set t" "s \<noteq> t"
  shows "split_from (CHR ''['' # s @ '']'') cur ((CHR ''['' # t @ '']'') @ X)
         = split_from (CHR ''['' # s @ '']'') (cur @ CHR ''['' # t @ '']'') X"
proof -
  have np: "\<not> prefix (s @ '']'') (t @ CHR '']'' # X)"
    using prefix_same_terminator[OF assms(1,2)] assms(4) by auto
  have "split_from (CHR ''['' # s @ '']'') cur ((CHR ''['' # t @ '']'') @ X)
      = split_from (CHR ''['' # s @ '']'') (cur @ ''['') ((t @ '']'') @ X)"
    using np by simp
  also have "\<dots> = split_from (CHR ''['' # s @ '']'') ((cur @ ''['') @ t @ '']'') X"
    by (rule split_from_skip) (use assms(3) in simp)
  finally show ?thesis by simp
qed

lemma mappings_distinct: "distinct (map fst mappings)" "distinct (map snd mappings)"
  by (simp_all add: mappings_def)

lemma mappings_tags: "\<forall>(col, tag)\<in>set mappings. CHR ''['' \<notin> set tag \<and> CHR '']'' \<notin> set tag"
  by (simp add: mappings_def)

lemma placeholder_of_mapped:
  "(col, tag) \<in> set mappings \<Longrightarrow> placeholder_of col = CHR ''['' # tag @ '']''"
  using map_of_is_SomeI[OF mappings_distinct(1)] by (simp add: placeholder_of_def)

lemma mappings_tag_inj:
  assumes "(c, t) \<in> set mappings" "(c', t') \<in> set mappings" "c \<noteq> c'"
  shows "t \<noteq> t'"
proof
  assume "t = t'"
  have "inj_on snd (set mappings)" using mappings_distinct(2) by (simp add: distinct_map)
  then have "(c, t) = (c', t')"
    using assms(1,2) \<open>t = t'\<close> inj_onD[of snd "set mappings" "(c, t)" "(c', t')"] by simp
  then show False using assms(3) by simp
qed

lemma escapeHtml_no_bracket: "CHR ''['' \<notin> set v \<Longrightarrow> CHR ''['' \<notin> set (escapeHtml v)"
  by (induction v) (auto simp: escapeHtml_concat escape_char_def split: if_splits)

lemma partly_filled_Cons:
  "partly_filled D row (part # parts) = partly_filled_part D row part @ partly_filled D row parts"
  by (simp add: partly_filled_def)

lemma fill_scan:
  assumes m: "(col, tag) \<in> set mappings"
    and wf: "\<forall>part\<in>set parts. well_formed_part part"
    and vals: "\<forall>c\<in>set (map fst mappings). CHR ''['' \<notin> set (value_or_empty row c)"
  shows "js_join (escapeHtml (value_or_empty row col))
           (split_from (CHR ''['' # tag @ '']'') cur (partly_filled D row parts))
         = cur @ partly_filled (insert col D) row parts"
  using wf
proof (induction parts arbitrary: cur)
  case Nil
  then show ?case by (simp add: partly_filled_def)
next
  case (Cons part parts)
  let ?P = "CHR ''['' # tag @ '']''"
  let ?r = "escapeHtml (value_or_empty row col)"
  have IH: "js_join ?r (split_from ?P cur (partly_filled D row parts))
      = cur @ partly_filled (insert col D) row parts" for cur
    using Cons by simp
  have plain: "js_join ?r (split_from ?P cur (t @ partly_filled D row parts))
      = cur @ t @ partly_filled (insert col D) row parts" if "CHR ''['' \<notin> set t" for t
    using split_from_skip[OF that, of "tag @ '']''" cur "partly_filled D row parts"]
      IH[of "cur @ t"] by simp
  show ?case
  proof (cases part)
    case (Text t)
    then have "CHR ''['' \<notin> set t" using Cons.prems by simp
    from plain[OF this] show ?thesis using Text by (simp add: partly_filled_Cons)
  next
    case (Field c)
    then have cm: "c \<in> set (map fst mappings)" using Cons.prems by simp
    then obtain t' where t': "(c, t') \<in> set mappings" by auto
    show ?thesis
    proof (cases "c \<in> D")
      case True
      have "CHR ''['' \<notin> set (escapeHtml (value_or_empty row c))"
        using vals cm escapeHtml_no_bracket by blast
      from plain[OF this] show ?thesis using Field True by (simp add: partly_filled_Cons)
    next
      case notD: False
      show ?thesis
      proof (cases "c = col")
        case True
        have p: "placeholder_of c = ?P" using placeholder_of_mapped[OF m] True by simp
        have "js_join ?r (split_from ?P cur (?P @ partly_filled D row parts))
            = cur @ ?r @ js_join ?r (split_from ?P [] (partly_filled D row parts))"
          by (simp only: split_from_match js_join_Cons[OF split_from_not_Nil])
        then show ?thesis using IH[of "[]"] Field True notD p
          by (simp add: partly_filled_Cons)
      next
        case False
        have p: "placeholder_of c = CHR ''['' # t' @ '']''" by (rule placeholder_of_mapped[OF t'])
        have ne: "tag \<noteq> t'" using mappings_tag_inj[OF m t'] False by auto
        have b: "CHR '']'' \<notin> set tag" "CHR '']'' \<notin> set t'" "CHR ''['' \<notin> set t'"
          using mappings_tags m t' by auto
        have "split_from ?P cur ((CHR ''['' # t' @ '']'') @ partly_filled D row parts)
            = split_from ?P (cur @ CHR ''['' # t' @ '']'') (partly_filled D row parts)"
          by (rule split_from_other_token[OF b ne])
        then show ?thesis using IH[of "cur @ CHR ''['' # t' @ '']''"] Field False notD p
          by (simp add: partly_filled_Cons)
      qed
    qed
  qed
qed

lemma fillHtmlTemplate_step_partly:
  assumes "(col, tag) \<in> set mappings"
    and "\<forall>part\<in>set parts. well_formed_part part"
    and "\<forall>c\<in>set (map fst mappings). CHR ''['' \<notin> set (value_or_empty row c)"
  shows "fillHtmlTemplate_step row (partly_filled D row parts) (col, tag)
         = partly_filled (insert col D) row parts"
  using fill_scan[OF assms, of "[]" D]
  by (simp add: fillHtmlTemplate_step_def js_split_def Let_def)

lemma foldl_fillHtmlTemplate_step:
  assumes "set ms \<subseteq> set mappings"
    and "\<forall>part\<in>set parts. well_formed_part part"
    and "\<forall>c\<in>set (map fst mappings). CHR ''['' \<notin> set (value_or_empty row c)"
  shows "foldl (fillHtmlTemplate_step row) (partly_filled D row parts) ms
         = partly_filled (D \<union> set (map fst ms)) row parts"
  using assms(1)
proof (induction ms arbitrary: D)
  case Nil
  then show ?case by simp
next
  case (Cons m ms)
  obtain col tag where m: "m = (col, tag)" by (cases m)
  have in_m: "(col, tag) \<in> set mappings" using Cons.prems m by simp
  have "foldl (fillHtmlTemplate_step row) (partly_filled D row parts) (m # ms)
      = foldl (fillHtmlTemplate_step row) (partly_filled (insert col D) row parts) ms"
    using fillHtmlTemplate_step_partly[OF in_m assms(2,3), of D] m by simp
  also have "\<dots> = partly_filled (insert col D \<union> set (map fst ms)) row parts"
    by (rule Cons.IH) (use Cons.prems in simp)
  finally show ?case using m by simp
qed

lemma partly_filled_none: "partly_filled {} row parts = template_of parts"
  unfolding partly_filled_def template_of_def
  by (rule arg_cong[where f = concat], rule map_cong[OF refl]) (case_tac x; simp)

lemma partly_filled_all:
  assumes "\<forall>part\<in>set parts. well_formed_part part"
  shows "partly_filled (set (map fst mappings)) row parts = concat (map (filled_part row) parts)"
  unfolding partly_filled_def
proof (rule arg_cong[where f = concat], rule map_cong[OF refl])
  fix x assume "x \<in> set parts"
  then have "well_formed_part x" using assms by simp
  then show "partly_filled_part (set (map fst mappings)) row x = filled_part row x"
    by (cases x) simp_all
qed

lemma filled_no_bracket:
  assumes "\<forall>part\<in>set parts. well_formed_part part"
    and "\<forall>c\<in>set (map fst mappings). CHR ''['' \<notin> set (value_or_empty row c)"
  shows "CHR ''['' \<notin> set (concat (map (filled_part row) parts))"
proof -
  have "CHR ''['' \<notin> set (filled_part row x)" if "x \<in> set parts" for x
  proof (cases x)
    case (Text t)
    then show ?thesis using assms(1) that by auto
  next
    case (Field c)
    then have "c \<in> set (map fst mappings)" using assms(1) that by auto
    then show ?thesis using Field assms(2) escapeHtml_no_bracket by auto
  qed
  then show ?thesis by auto
qed

lemma template_empty_filled:
  assumes "\<forall>part\<in>set parts. well_formed_part part" "template_of parts = []"
  shows "concat (map (filled_part row) parts) = []"
proof -
  have "filled_part row x = []" if "x \<in> set parts" for x
  proof (cases x)
    case (Text t)
    then show ?thesis using assms(2) that by (auto simp: template_of_def)
  next
    case (Field c)
    then have "c \<in> set (map fst mappings)" using assms(1) that by auto
    then obtain t where "(c, t) \<in> set mappings" by auto
    then have "placeholder_of c \<noteq> []" using placeholder_of_mapped by simp
    then show ?thesis using Field assms(2) that by (auto simp: template_of_def)
  qed
  then show ?thesis by simp
qed

lemma fillHtmlTemplate_parts:
  assumes "\<forall>part\<in>set parts. well_formed_part part"
    and "\<forall>c\<in>set (map fst mappings). CHR ''['' \<notin> set (value_or_empty row c)"
  shows "fillHtmlTemplate (Some (template_of parts)) row = concat (map (filled_part row) parts)"
proof (cases "template_of parts = []")
  case True
  then show ?thesis using template_empty_filled[OF assms(1) True]
    by (simp add: fillHtmlTemplate_def)
next
  case False
  have "foldl (fillHtmlTemplate_step row) (partly_filled {} row parts) mappings
      = partly_filled ({} \<union> set (map fst mappings)) row parts"
    by (rule foldl_fillHtmlTemplate_step[OF _ assms]) simp
  then show ?thesis using False partly_filled_all[OF assms(1), of row]
    by (simp add: fillHtmlTemplate_def partly_filled_none)
qed

lemma value_or_empty_Nil_iff:
  "value_or_empty row col = [] \<longleftrightarrow> row col = None \<or> row col = Some []"
  by (simp add: value_or_empty_def split: option.splits)

text \<open>
  Claim C1, as the code has it. \<open>fillHtmlTemplate\<close> puts the escaped value in the place of
  every placeholder, the empty string when the field is absent or empty: for a template made
  of text without an opening bracket and of placeholders of the mapping table, and a record
  whose mapped values hold no opening bracket, the result is the template with every
  placeholder replaced, and no placeholder of the table is left in it. \<open>fillTemplate\<close>, the
  fill that \<open>Preview.render\<close> calls, does otherwise by its \<open>escapedValue || placeholder\<close>:
  the round for a field that is absent or empty leaves the markup as it is, so when all
  mapped fields are absent or empty the template comes out with its placeholders (only the
  placeholder of the file columns is replaced).
\<close>

theorem fill_absent_field:
  "((\<forall>part\<in>set parts. well_formed_part part) \<and>
    (\<forall>c\<in>set (map fst mappings). CHR ''['' \<notin> set (value_or_empty row c)) \<longrightarrow>
      fillHtmlTemplate (Some (template_of parts)) row = concat (map (filled_part row) parts) \<and>
      (\<forall>(c, tag)\<in>set mappings.
         \<not> sublist (''['' @ tag @ '']'') (fillHtmlTemplate (Some (template_of parts)) row))) \<and>
   (row col = None \<or> row col = Some [] \<longrightarrow> filled_part row (Field col) = []) \<and>
   ((row col = None \<or> row col = Some []) \<and> placeholder \<noteq> [] \<longrightarrow>
      fillTemplate_step row html (col, placeholder) = html) \<and>
   ((\<forall>(c, placeholder)\<in>set placeholder_mappings. row c = None \<or> row c = Some []) \<and> t \<noteq> [] \<longrightarrow>
      fillTemplate (Some t) row
        = Inr (js_join
            (escapeHtml (if fileValues row = [] then ''No files uploaded'' else fileValues row))
            (js_split fileMappings_placeholder t)))"
proof -
  have 1: "(\<forall>part\<in>set parts. well_formed_part part) \<and>
    (\<forall>c\<in>set (map fst mappings). CHR ''['' \<notin> set (value_or_empty row c)) \<longrightarrow>
      fillHtmlTemplate (Some (template_of parts)) row = concat (map (filled_part row) parts) \<and>
      (\<forall>(c, tag)\<in>set mappings.
         \<not> sublist (''['' @ tag @ '']'') (fillHtmlTemplate (Some (template_of parts)) row))"
  proof (intro impI, elim conjE)
    assume wf: "\<forall>part\<in>set parts. well_formed_part part"
      and vals: "\<forall>c\<in>set (map fst mappings). CHR ''['' \<notin> set (value_or_empty row c)"
    have eq: "fillHtmlTemplate (Some (template_of parts)) row = concat (map (filled_part row) parts)"
      by (rule fillHtmlTemplate_parts[OF wf vals])
    have nb: "CHR ''['' \<notin> set (fillHtmlTemplate (Some (template_of parts)) row)"
      unfolding eq by (rule filled_no_bracket[OF wf vals])
    have "\<not> sublist (''['' @ tag @ '']'') (fillHtmlTemplate (Some (template_of parts)) row)" for tag
    proof
      assume "sublist (''['' @ tag @ '']'') (fillHtmlTemplate (Some (template_of parts)) row)"
      then have "set (''['' @ tag @ '']'') \<subseteq> set (fillHtmlTemplate (Some (template_of parts)) row)"
        by (rule set_mono_sublist)
      then show False using nb by simp
    qed
    then show "fillHtmlTemplate (Some (template_of parts)) row = concat (map (filled_part row) parts) \<and>
      (\<forall>(c, tag)\<in>set mappings.
         \<not> sublist (''['' @ tag @ '']'') (fillHtmlTemplate (Some (template_of parts)) row))"
      using eq by blast
  qed
  have 2: "row col = None \<or> row col = Some [] \<longrightarrow> filled_part row (Field col) = []"
    by (auto simp: value_or_empty_def escapeHtml_def)
  have 3: "(row col = None \<or> row col = Some []) \<and> placeholder \<noteq> [] \<longrightarrow>
      fillTemplate_step row html (col, placeholder) = html"
    using fillTemplate_step_empty[of row col placeholder html] value_or_empty_Nil_iff[of row col]
    by blast
  have 4: "(\<forall>(c, placeholder)\<in>set placeholder_mappings. row c = None \<or> row c = Some []) \<and> t \<noteq> [] \<longrightarrow>
      fillTemplate (Some t) row
        = Inr (js_join
            (escapeHtml (if fileValues row = [] then ''No files uploaded'' else fileValues row))
            (js_split fileMappings_placeholder t))"
  proof (intro impI, elim conjE)
    assume a: "\<forall>(c, placeholder)\<in>set placeholder_mappings. row c = None \<or> row c = Some []"
      and t: "t \<noteq> []"
    have "\<forall>(c, placeholder)\<in>set placeholder_mappings. value_or_empty row c = []"
      using a value_or_empty_Nil_iff[of row] by fastforce
    from fillTemplate_all_empty[OF this t]
    show "fillTemplate (Some t) row
        = Inr (js_join
            (escapeHtml (if fileValues row = [] then ''No files uploaded'' else fileValues row))
            (js_split fileMappings_placeholder t))" .
  qed
  show ?thesis by (intro conjI 1 2 3 4)
qed

theorem fill_absent_field_witness:
  "list_all well_formed_part
     [Text ''<p>'', Field ''Client'', Text ''</p>'', Field ''Site Constraints''] \<and>
   list_all (\<lambda>c. CHR ''['' \<notin> set (value_or_empty [''Site Constraints'' \<mapsto> ''a<b''] c))
     (map fst mappings) \<and>
   template_of [Text ''<p>'', Field ''Client'', Text ''</p>'', Field ''Site Constraints'']
     = ''<p>[INSERT_CLIENT_NAME]</p>[INSERT_SITE_CONSTRAINTS]'' \<and>
   fillHtmlTemplate (Some ''<p>[INSERT_CLIENT_NAME]</p>[INSERT_SITE_CONSTRAINTS]'')
       [''Site Constraints'' \<mapsto> ''a<b'']
     = ''<p></p>a&lt;b'' \<and>
   [''Site Constraints'' \<mapsto> ''a<b''] ''Client'' = None \<and>
   filled_part [''Site Constraints'' \<mapsto> ''a<b''] (Field ''Client'') = [] \<and>
   ''[T]'' \<noteq> [] \<and>
   fillTemplate_step [''Site Constraints'' \<mapsto> ''a<b''] ''x[T]y'' (''Client'', ''[T]'') = ''x[T]y'' \<and>
   list_all (\<lambda>(c, placeholder). (Map.empty :: row) c = None \<or> (Map.empty :: row) c = Some [])
     placeholder_mappings \<and>
   fillTemplate (Some ''[INSERT_CLIENT_NAME]'') Map.empty = Inr ''[INSERT_CLIENT_NAME]''"
proof -
  let ?parts = "[Text ''<p>'', Field ''Client'', Text ''</p>'', Field ''Site Constraints'']"
  let ?row = "[''Site Constraints'' \<mapsto> ''a<b'']"
  note T = fill_absent_field[where parts = ?parts and row = ?row and col = "''Client''"
      and placeholder = "''[T]''" and html = "''x[T]y''"]
  note U = fill_absent_field[where row = "Map.empty" and t = "''[INSERT_CLIENT_NAME]''"]
  have h1: "\<forall>part\<in>set ?parts. well_formed_part part" by (simp add: mappings_def)
  have h2: "\<forall>c\<in>set (map fst mappings). CHR ''['' \<notin> set (value_or_empty ?row c)"
    by (simp add: mappings_def value_or_empty_def)
  have t: "template_of ?parts = ''<p>[INSERT_CLIENT_NAME]</p>[INSERT_SITE_CONSTRAINTS]''"
    by code_simp
  have f: "concat (map (filled_part ?row) ?parts) = ''<p></p>a&lt;b''" by code_simp
  have c1: "fillHtmlTemplate (Some ''<p>[INSERT_CLIENT_NAME]</p>[INSERT_SITE_CONSTRAINTS]'') ?row
     = ''<p></p>a&lt;b''"
    using T[THEN conjunct1, THEN mp, OF conjI[OF h1 h2], THEN conjunct1] unfolding t f .
  have h3: "?row ''Client'' = None" by simp
  have c2: "filled_part ?row (Field ''Client'') = []"
    by (rule T[THEN conjunct2, THEN conjunct1, THEN mp, OF disjI1[OF h3]])
  have h4: "''[T]'' \<noteq> []" by simp
  have c3: "fillTemplate_step ?row ''x[T]y'' (''Client'', ''[T]'') = ''x[T]y''"
    by (rule T[THEN conjunct2, THEN conjunct2, THEN conjunct1, THEN mp,
          OF conjI[OF disjI1[OF h3] h4]])
  have h5: "\<forall>(c, placeholder)\<in>set placeholder_mappings.
      (Map.empty :: row) c = None \<or> (Map.empty :: row) c = Some []" by simp
  have h6: "''[INSERT_CLIENT_NAME]'' \<noteq> []" by simp
  have e: "js_join (escapeHtml (if fileValues Map.empty = [] then ''No files uploaded''
                                else fileValues Map.empty))
             (js_split fileMappings_placeholder ''[INSERT_CLIENT_NAME]'')
           = ''[INSERT_CLIENT_NAME]''" by code_simp
  have c4: "fillTemplate (Some ''[INSERT_CLIENT_NAME]'') Map.empty = Inr ''[INSERT_CLIENT_NAME]''"
    using U[THEN conjunct2, THEN conjunct2, THEN conjunct2, THEN mp, OF conjI[OF h5 h6]]
    unfolding e .
  have l1: "list_all well_formed_part ?parts" using h1 by (simp only: list_all_iff)
  have l2: "list_all (\<lambda>c. CHR ''['' \<notin> set (value_or_empty ?row c)) (map fst mappings)"
    using h2 by (simp only: list_all_iff)
  have l5: "list_all (\<lambda>(c, placeholder). (Map.empty :: row) c = None \<or> (Map.empty :: row) c = Some [])
     placeholder_mappings"
    using h5 by (simp only: list_all_iff)
  show ?thesis
    by (intro conjI) (rule l1, rule l2, rule t, rule c1, rule h3, rule c2, rule h4, rule c3,
        rule l5, rule c4)
qed

text \<open>
  Claim C1 as it is stated fails: with no \<open>Client\<close>, or an empty one, \<open>fillTemplate\<close>
  returns the template with the placeholder \<open>[INSERT_CLIENT_NAME]\<close> in it. And a value that
  itself holds the text of a placeholder stays in the result of \<open>fillHtmlTemplate\<close> when
  the round of that placeholder is over.
\<close>

theorem fill_absent_field_counterexample:
  "(Map.empty :: row) ''Client'' = None \<and>
   fillTemplate (Some ''<p>[INSERT_CLIENT_NAME]</p>'') Map.empty
     = Inr ''<p>[INSERT_CLIENT_NAME]</p>'' \<and>
   fillTemplate (Some ''<p>[INSERT_CLIENT_NAME]</p>'') [''Client'' \<mapsto> []]
     = Inr ''<p>[INSERT_CLIENT_NAME]</p>'' \<and>
   fillHtmlTemplate (Some ''[INSERT_SITE_CONSTRAINTS]'')
       [''Site Constraints'' \<mapsto> ''[INSERT_CLIENT_NAME]'']
     = ''[INSERT_CLIENT_NAME]''"
  by code_simp

end
